theory Spec2Isabelle
  imports Main "HOL-Library.Multiset"
begin

section \<open>Data model\<close>

text \<open>
  The scripts under \<^verbatim>\<open>backend/data_gen\<close> pass rectangles around as Python
  dictionaries. The extractor produces dictionaries with the keys
  \<^verbatim>\<open>color_name, color, width, height\<close>; the generator, the placer and the packer
  work on dictionaries that also carry \<^verbatim>\<open>x\<close> and \<^verbatim>\<open>y\<close>. Python
  integers are unbounded, hence \<open>int\<close>.
\<close>

type_synonym rgb = "int \<times> int \<times> int"

record sized =
  color_name :: string
  color :: rgb
  width :: int
  height :: int

record box = sized +
  xpos :: int
  ypos :: int

datatype error = ValueError | RuntimeError | IndexError | AssertionError | OverflowError

definition COLORS :: "(string \<times> rgb) list" where
  "COLORS = [(''red'', (255, 0, 0)), (''green'', (0, 255, 0)), (''blue'', (0, 0, 255)),
             (''orange'', (255, 165, 0)), (''yellow'', (255, 255, 0))]"

definition COLOR_ORDER :: "string list" where
  "COLOR_ORDER = map fst COLORS"

definition IMAGE_WIDTH :: int where "IMAGE_WIDTH = 800"
definition IMAGE_HEIGHT :: int where "IMAGE_HEIGHT = 600"
definition OUTLINE_WIDTH :: int where "OUTLINE_WIDTH = 2"

section \<open>Geometry primitives (generate\_images.py)\<close>

text \<open>\<^verbatim>\<open>boxes_overlap\<close>: two early returns of False, then True.\<close>

definition boxes_overlap :: "box \<Rightarrow> box \<Rightarrow> bool" where
  "boxes_overlap box_a box_b =
     (let a_left = xpos box_a; a_top = ypos box_a;
          a_right = a_left + width box_a; a_bottom = a_top + height box_a;
          b_left = xpos box_b; b_top = ypos box_b;
          b_right = b_left + width box_b; b_bottom = b_top + height box_b
      in if a_right \<le> b_left \<or> a_left \<ge> b_right then False
         else if a_bottom \<le> b_top \<or> a_top \<ge> b_bottom then False
         else True)"

text \<open>
  The spec's wording of the test, for comparison with the code: the closed intervals
  \<open>[l1, r1]\<close> and \<open>[l2, r2]\<close> meet in an interval of positive length.
\<close>

definition interior_meet :: "int \<Rightarrow> int \<Rightarrow> int \<Rightarrow> int \<Rightarrow> bool" where
  "interior_meet l1 r1 l2 r2 = (max l1 l2 < min r1 r2)"

section \<open>Randomized non-overlapping placer (generate\_images.py)\<close>

text \<open>
  \<^verbatim>\<open>random.randint(a, b)\<close> raises ValueError on an empty range and otherwise returns
  some integer of \<open>[a, b]\<close>. The random source is an explicit parameter: \<open>rnd k\<close> is
  the raw \<open>k\<close>-th draw, reduced into the requested range, so every sequence of in-range
  results is the behaviour of some \<open>rnd\<close>.
\<close>

definition randint :: "(nat \<Rightarrow> nat) \<Rightarrow> nat \<Rightarrow> int \<Rightarrow> int \<Rightarrow> error + int" where
  "randint rnd k a b =
     (if b < a then Inl ValueError else Inr (a + int (rnd k mod nat (b - a + 1))))"

text \<open>
  \<^verbatim>\<open>range(0, stop, step)\<close> for a positive step; empty when \<open>stop \<le> 0\<close>.
\<close>

definition range_step :: "int \<Rightarrow> int \<Rightarrow> int list" where
  "range_step stop step = map (\<lambda>i. int i * step) [0..<nat ((stop + step - 1) div step)]"

text \<open>
  \<^verbatim>\<open>placed_boxes\<close> holds references to the dictionaries of \<^verbatim>\<open>boxes_copy\<close>,
  which the search mutates in place; the model keeps the list \<open>boxes\<close> of
  \<^verbatim>\<open>boxes_copy\<close> and represents \<^verbatim>\<open>placed_boxes\<close> by the indices it refers to.
  \<^verbatim>\<open>all(not boxes_overlap(box, other) for other in placed_boxes)\<close>:
\<close>

definition no_overlap_with_placed :: "box list \<Rightarrow> nat list \<Rightarrow> nat \<Rightarrow> bool" where
  "no_overlap_with_placed boxes placed idx =
     list_all (\<lambda>other. \<not> boxes_overlap (boxes ! idx) (boxes ! other)) placed"

definition set_position :: "box list \<Rightarrow> nat \<Rightarrow> int \<Rightarrow> int \<Rightarrow> box list" where
  "set_position boxes idx x y = boxes[idx := (boxes ! idx)\<lparr>xpos := x, ypos := y\<rparr>]"

text \<open>
  The loop \<^verbatim>\<open>for _ in range(500)\<close>, with the number of attempts left as the first
  argument. It returns the flag \<^verbatim>\<open>placed\<close>, the boxes and the next draw's number.
\<close>

fun random_attempts ::
  "nat \<Rightarrow> (nat \<Rightarrow> nat) \<Rightarrow> nat \<Rightarrow> box list \<Rightarrow> nat list \<Rightarrow> nat \<Rightarrow> error + (bool \<times> box list \<times> nat)"
where
  "random_attempts 0 rnd k boxes placed idx = Inr (False, boxes, k)"
| "random_attempts (Suc n) rnd k boxes placed idx =
     (case randint rnd k 0 (IMAGE_WIDTH - width (boxes ! idx)) of
        Inl e \<Rightarrow> Inl e
      | Inr x \<Rightarrow>
         (case randint rnd (k + 1) 0 (IMAGE_HEIGHT - height (boxes ! idx)) of
            Inl e \<Rightarrow> Inl e
          | Inr y \<Rightarrow>
             (let boxes' = set_position boxes idx x y
              in if no_overlap_with_placed boxes' placed idx then Inr (True, boxes', k + 2)
                 else random_attempts n rnd (k + 2) boxes' placed idx)))"

text \<open>The inner loop of the grid fallback, over the x values of one row.\<close>

fun scan_x :: "box list \<Rightarrow> nat list \<Rightarrow> nat \<Rightarrow> int \<Rightarrow> int list \<Rightarrow> bool \<times> box list" where
  "scan_x boxes placed idx y [] = (False, boxes)"
| "scan_x boxes placed idx y (x # xs) =
     (let boxes' = set_position boxes idx x y
      in if no_overlap_with_placed boxes' placed idx then (True, boxes')
         else scan_x boxes' placed idx y xs)"

text \<open>The outer loop, over the rows; it stops once a row has placed the box.\<close>

fun scan_y :: "box list \<Rightarrow> nat list \<Rightarrow> nat \<Rightarrow> int list \<Rightarrow> bool \<times> box list" where
  "scan_y boxes placed idx [] = (False, boxes)"
| "scan_y boxes placed idx (y # ys) =
     (case scan_x boxes placed idx y
             (range_step (IMAGE_WIDTH - width (boxes ! idx) + 1) 5) of
        (True, boxes') \<Rightarrow> (True, boxes')
      | (False, boxes') \<Rightarrow> scan_y boxes' placed idx ys)"

definition grid_fallback :: "box list \<Rightarrow> nat list \<Rightarrow> nat \<Rightarrow> bool \<times> box list" where
  "grid_fallback boxes placed idx =
     scan_y boxes placed idx (range_step (IMAGE_HEIGHT - height (boxes ! idx) + 1) 5)"

text \<open>The body of \<^verbatim>\<open>for idx in order\<close>, and the loop itself.\<close>

definition place_one ::
  "(nat \<Rightarrow> nat) \<Rightarrow> nat \<Rightarrow> box list \<Rightarrow> nat list \<Rightarrow> nat \<Rightarrow> error + (box list \<times> nat list \<times> nat)"
where
  "place_one rnd k boxes placed idx =
     (case random_attempts 500 rnd k boxes placed idx of
        Inl e \<Rightarrow> Inl e
      | Inr (found, boxes1, k1) \<Rightarrow>
         (case (if \<not> found then grid_fallback boxes1 placed idx else (found, boxes1)) of
            (found2, boxes2) \<Rightarrow>
              if \<not> found2 then Inl RuntimeError
              else Inr (boxes2, placed @ [idx], k1)))"

fun place_all ::
  "(nat \<Rightarrow> nat) \<Rightarrow> nat \<Rightarrow> box list \<Rightarrow> nat list \<Rightarrow> nat list \<Rightarrow> error + (box list \<times> nat list \<times> nat)"
where
  "place_all rnd k boxes placed [] = Inr (boxes, placed, k)"
| "place_all rnd k boxes placed (idx # order) =
     (case place_one rnd k boxes placed idx of
        Inl e \<Rightarrow> Inl e
      | Inr (boxes', placed', k') \<Rightarrow> place_all rnd k' boxes' placed' order)"

text \<open>
  \<^verbatim>\<open>sorted(range(n), key=area, reverse=True)\<close> is stable: equal areas keep their
  original order, which is a stable ascending sort on the negated area.
\<close>

definition placement_order :: "box list \<Rightarrow> nat list" where
  "placement_order boxes =
     sort_key (\<lambda>idx. - (width (boxes ! idx) * height (boxes ! idx))) [0..<length boxes]"

text \<open>
  \<^verbatim>\<open>color_order.index(name)\<close> raises ValueError for a name that is not in the list;
  \<open>list_index\<close> is the position of the first occurrence.
\<close>

fun list_index :: "'a list \<Rightarrow> 'a \<Rightarrow> nat" where
  "list_index [] a = 0"
| "list_index (b # bs) a = (if b = a then 0 else Suc (list_index bs a))"

definition sort_by_color :: "('a sized_scheme) list \<Rightarrow> error + ('a sized_scheme) list" where
  "sort_by_color boxes =
     (if list_all (\<lambda>b. color_name b \<in> set COLOR_ORDER) boxes
      then Inr (sort_key (\<lambda>b. list_index COLOR_ORDER (color_name b)) boxes)
      else Inl ValueError)"

definition arrange_boxes_without_overlap :: "(nat \<Rightarrow> nat) \<Rightarrow> box list \<Rightarrow> error + box list" where
  "arrange_boxes_without_overlap rnd boxes =
     (case place_all rnd 0 boxes [] (placement_order boxes) of
        Inl e \<Rightarrow> Inl e
      | Inr (boxes_copy, placed_boxes, k) \<Rightarrow> sort_by_color boxes_copy)"

section \<open>Predicates used to state the placer's properties\<close>

text \<open>A rectangle lies within the canvas.\<close>

definition in_canvas :: "box \<Rightarrow> bool" where
  "in_canvas b = (0 \<le> xpos b \<and> xpos b + width b \<le> IMAGE_WIDTH \<and>
                  0 \<le> ypos b \<and> ypos b + height b \<le> IMAGE_HEIGHT)"

text \<open>Everything of a rectangle but its position.\<close>

definition attrs :: "'a sized_scheme \<Rightarrow> string \<times> rgb \<times> int \<times> int" where
  "attrs b = (color_name b, color b, width b, height b)"

text \<open>The (width, height, color) triple of a rectangle.\<close>

definition triple :: "'a sized_scheme \<Rightarrow> int \<times> int \<times> rgb" where
  "triple b = (width b, height b, color b)"

text \<open>
  Between two states of \<^verbatim>\<open>boxes_copy\<close> only the position of entry \<open>idx\<close> changed.
\<close>

definition only_moved :: "nat \<Rightarrow> box list \<Rightarrow> box list \<Rightarrow> bool" where
  "only_moved idx boxes boxes' =
     (length boxes' = length boxes \<and>
      (\<forall>j < length boxes. j \<noteq> idx \<longrightarrow> boxes' ! j = boxes ! j) \<and>
      (\<forall>j < length boxes. attrs (boxes' ! j) = attrs (boxes ! j)))"

text \<open>
  The loop invariant of the placer: the rectangles placed so far lie within the canvas
  and do not overlap one another.
\<close>

definition placed_ok :: "box list \<Rightarrow> nat list \<Rightarrow> bool" where
  "placed_ok boxes placed =
     ((\<forall>i\<in>set placed. i < length boxes \<and> in_canvas (boxes ! i)) \<and>
      (\<forall>i\<in>set placed. \<forall>j\<in>set placed. i \<noteq> j \<longrightarrow> \<not> boxes_overlap (boxes ! i) (boxes ! j)))"

text \<open>
  The rectangle \<open>idx\<close> overlaps an already placed rectangle at every position of the
  fallback's grid.
\<close>

definition grid_blocked :: "box list \<Rightarrow> nat list \<Rightarrow> nat \<Rightarrow> bool" where
  "grid_blocked boxes placed idx =
     (\<forall>y\<in>set (range_step (IMAGE_HEIGHT - height (boxes ! idx) + 1) 5).
      \<forall>x\<in>set (range_step (IMAGE_WIDTH - width (boxes ! idx) + 1) 5).
        \<not> no_overlap_with_placed (set_position boxes idx x y) placed idx)"

subsection \<open>Sample inputs\<close>

definition mk_box :: "string \<Rightarrow> int \<Rightarrow> int \<Rightarrow> int \<Rightarrow> int \<Rightarrow> box" where
  "mk_box name w h x y =
     \<lparr>color_name = name, color = the (map_of COLORS name), width = w, height = h,
      xpos = x, ypos = y\<rparr>"

definition sample_draws :: "nat \<Rightarrow> nat" where
  "sample_draws k = 37 * k + 11"

definition sample_boxes :: "box list" where
  "sample_boxes = [mk_box ''red'' 100 80 0 0, mk_box ''green'' 60 60 10 10,
                   mk_box ''blue'' 150 50 20 20]"

text \<open>
  Two rectangles that fit side by side (400 + 399 \<le> 800), and a random source that puts
  the larger one in the middle of the canvas.
\<close>

definition stuck_draws :: "nat \<Rightarrow> nat" where
  "stuck_draws k = 200"

definition stuck_boxes :: "box list" where
  "stuck_boxes = [mk_box ''red'' 400 600 0 0, mk_box ''blue'' 399 600 0 0]"

definition side_by_side :: "box list" where
  "side_by_side = [mk_box ''red'' 400 600 0 0, mk_box ''blue'' 399 600 400 0]"

section \<open>Color-based rectangle extractor (solutions\_gen.py)\<close>

text \<open>
  The decoded image: \<^verbatim>\<open>img.size\<close> and the pixel access object of
  \<^verbatim>\<open>img.load()\<close>, read as \<^verbatim>\<open>pixels[x, y]\<close> for \<open>x < width\<close> and \<open>y < height\<close>.
\<close>

record image =
  img_width :: nat
  img_height :: nat
  pixels :: "nat \<Rightarrow> nat \<Rightarrow> rgb"

text \<open>\<^verbatim>\<open>COLOR_LOOKUP = {rgb: name for name, rgb in COLORS.items()}\<close> and its \<^verbatim>\<open>get\<close>.\<close>

definition COLOR_LOOKUP :: "rgb \<Rightarrow> string option" where
  "COLOR_LOOKUP = map_of (map (\<lambda>(name, rgb). (rgb, name)) COLORS)"

text \<open>The per-color entry of the dictionary \<^verbatim>\<open>bounds\<close>.\<close>

record extents =
  min_x :: int
  max_x :: int
  min_y :: int
  max_y :: int

definition initial_extents :: "image \<Rightarrow> extents" where
  "initial_extents img =
     \<lparr>min_x = int (img_width img), max_x = -1, min_y = int (img_height img), max_y = -1\<rparr>"

text \<open>The four independent \<^verbatim>\<open>if\<close> statements that track the extents.\<close>

definition track :: "extents \<Rightarrow> int \<Rightarrow> int \<Rightarrow> extents" where
  "track data x y =
     (let d1 = (if x < min_x data then data\<lparr>min_x := x\<rparr> else data);
          d2 = (if x > max_x d1 then d1\<lparr>max_x := x\<rparr> else d1);
          d3 = (if y < min_y d2 then d2\<lparr>min_y := y\<rparr> else d2);
          d4 = (if y > max_y d3 then d3\<lparr>max_y := y\<rparr> else d3)
      in d4)"

text \<open>The body of the pixel loop; a pixel of no palette color is skipped.\<close>

definition scan_pixel :: "image \<Rightarrow> nat \<Rightarrow> nat \<Rightarrow> (string \<Rightarrow> extents) \<Rightarrow> (string \<Rightarrow> extents)" where
  "scan_pixel img y x bounds =
     (case COLOR_LOOKUP (pixels img x y) of
        None \<Rightarrow> bounds
      | Some name \<Rightarrow> bounds(name := track (bounds name) (int x) (int y)))"

text \<open>\<^verbatim>\<open>for y in range(height): for x in range(width): ...\<close>\<close>

definition scan_image :: "image \<Rightarrow> (string \<Rightarrow> extents)" where
  "scan_image img =
     fold (\<lambda>y bounds. fold (scan_pixel img y) [0..<img_width img] bounds)
       [0..<img_height img] (\<lambda>name. initial_extents img)"

text \<open>
  The loop over \<^verbatim>\<open>bounds.items()\<close>, in the order of \<^verbatim>\<open>COLORS\<close>. It returns the
  names for which the warning is printed, and the rectangles.
\<close>

fun collect_boxes :: "image \<Rightarrow> (string \<Rightarrow> extents) \<Rightarrow> (string \<times> rgb) list \<Rightarrow> string list \<times> sized list"
where
  "collect_boxes img bounds [] = ([], [])"
| "collect_boxes img bounds ((name, rgb) # rest) =
     (let data = bounds name; (warnings, boxes) = collect_boxes img bounds rest
      in if max_x data = -1 then (name # warnings, boxes)
         else
          (let min_x' = max (min_x data - OUTLINE_WIDTH) 0;
               min_y' = max (min_y data - OUTLINE_WIDTH) 0;
               max_x' = min (max_x data + OUTLINE_WIDTH) (int (img_width img) - 1);
               max_y' = min (max_y data + OUTLINE_WIDTH) (int (img_height img) - 1)
           in (warnings,
               \<lparr>color_name = name, color = rgb,
                width = max_x' - min_x' + 1, height = max_y' - min_y' + 1\<rparr> # boxes)))"

text \<open>
  \<^verbatim>\<open>extract_boxes\<close>: the printed warnings, and the rectangles or the ValueError of
  an image without any recognizable rectangle.
\<close>

definition extract_boxes :: "image \<Rightarrow> string list \<times> (error + sized list)" where
  "extract_boxes img =
     (let (warnings, boxes) = collect_boxes img (scan_image img) COLORS
      in (warnings, if boxes = [] then Inl ValueError else Inr boxes))"

subsection \<open>Predicates used to state the extractor's properties\<close>

text \<open>Some pixel of the image has exactly the color \<open>rgb\<close>.\<close>

definition has_pixel_of :: "image \<Rightarrow> rgb \<Rightarrow> bool" where
  "has_pixel_of img rgb =
     list_ex (\<lambda>y. list_ex (\<lambda>x. pixels img x y = rgb) [0..<img_width img]) [0..<img_height img]"

text \<open>The extents of a color that was seen lie within the image, and are ordered.\<close>

definition tracked :: "image \<Rightarrow> extents \<Rightarrow> bool" where
  "tracked img d =
     (0 \<le> min_x d \<and> min_x d \<le> max_x d \<and> max_x d < int (img_width img) \<and>
      0 \<le> min_y d \<and> min_y d \<le> max_y d \<and> max_y d < int (img_height img))"

text \<open>
  The invariant of the pixel loop, for the set \<open>S\<close> of pixels visited so far: a color
  seen in \<open>S\<close> is tracked, a color not seen has its initial entry.
\<close>

definition scan_inv :: "image \<Rightarrow> (nat \<times> nat) set \<Rightarrow> (string \<Rightarrow> extents) \<Rightarrow> bool" where
  "scan_inv img S bounds =
     (\<forall>name. if (\<exists>(x, y)\<in>S. COLOR_LOOKUP (pixels img x y) = Some name)
             then tracked img (bounds name)
             else bounds name = initial_extents img)"

text \<open>A 4x3 image with one red pixel at (1, 1) and a blue pixel at (3, 2), white elsewhere.\<close>

definition sample_image :: image where
  "sample_image =
     \<lparr>img_width = 4, img_height = 3,
      pixels = (\<lambda>x y. if x = 1 \<and> y = 1 then (255, 0, 0)
                       else if x = 3 \<and> y = 2 then (0, 0, 255) else (255, 255, 255))\<rparr>"

text \<open>An image with no pixel of a palette color.\<close>

definition blank_image :: image where
  "blank_image = \<lparr>img_width = 2, img_height = 2, pixels = (\<lambda>x y. (255, 255, 255))\<rparr>"

section \<open>Occupancy mask of the contour-based detector (validation.py)\<close>

text \<open>
  The detector's candidates are the tuples \<^verbatim>\<open>(x, y, w, h)\<close> of
  \<^verbatim>\<open>cv2.boundingRect\<close>. The mask is a \<^verbatim>\<open>height\<close> by \<^verbatim>\<open>width\<close> array of
  bytes, modelled by its shape and the value \<open>mask_at m px py\<close> of row \<open>py\<close>, column \<open>px\<close>.
\<close>

type_synonym bbox = "int \<times> int \<times> int \<times> int"

record mask =
  mask_height :: nat
  mask_width :: nat
  mask_at :: "int \<Rightarrow> int \<Rightarrow> nat"

record detected =
  det_id :: nat
  det_area :: int
  det_width :: int
  det_height :: int
  det_color_rgb :: rgb
  det_bbox :: bbox

text \<open>\<^verbatim>\<open>np.zeros((height, width), dtype=np.uint8)\<close>\<close>

definition zeros :: "nat \<Rightarrow> nat \<Rightarrow> mask" where
  "zeros h w = \<lparr>mask_height = h, mask_width = w, mask_at = (\<lambda>px py. 0)\<rparr>"

text \<open>
  \<^verbatim>\<open>cv2.rectangle(mask, pt1, pt2, value, -1)\<close> belongs to OpenCV, not to this
  repository. Modelled from OpenCV's documentation: it fills the rectangle whose two
  opposite corners are \<open>pt1\<close> and \<open>pt2\<close>, both corners included, clipped to the array.
\<close>

definition cv2_rectangle_filled :: "mask \<Rightarrow> int \<times> int \<Rightarrow> int \<times> int \<Rightarrow> nat \<Rightarrow> mask" where
  "cv2_rectangle_filled m pt1 pt2 v =
     (let x1 = min (fst pt1) (fst pt2); x2 = max (fst pt1) (fst pt2);
          y1 = min (snd pt1) (snd pt2); y2 = max (snd pt1) (snd pt2)
      in m\<lparr>mask_at := (\<lambda>px py.
              if x1 \<le> px \<and> px \<le> x2 \<and> y1 \<le> py \<and> py \<le> y2 \<and>
                 0 \<le> px \<and> px < int (mask_width m) \<and> 0 \<le> py \<and> py < int (mask_height m)
              then v else mask_at m px py)\<rparr>)"

text \<open>
  The loop of \<^verbatim>\<open>annotate_and_collect\<close> over \<^verbatim>\<open>enumerate(bboxes, start=1)\<close>. The
  dominant color comes from a floating-point k-means of OpenCV and is a parameter
  \<open>dominant\<close> of the model; drawing on the displayed image and printing are left out.
\<close>

fun annotate_loop ::
  "(bbox \<Rightarrow> rgb) \<Rightarrow> nat \<Rightarrow> bbox list \<Rightarrow> detected list \<Rightarrow> mask \<Rightarrow> detected list \<times> mask"
where
  "annotate_loop dominant i [] rectangles m = (rectangles, m)"
| "annotate_loop dominant i ((x, y, w, h) # bboxes) rectangles m =
     annotate_loop dominant (i + 1) bboxes
       (rectangles @ [\<lparr>det_id = i, det_area = w * h, det_width = w, det_height = h,
                       det_color_rgb = dominant (x, y, w, h), det_bbox = (x, y, w, h)\<rparr>])
       (cv2_rectangle_filled m (x, y) (x + w, y + h) 255)"

definition annotate_and_collect ::
  "(bbox \<Rightarrow> rgb) \<Rightarrow> nat \<Rightarrow> nat \<Rightarrow> bbox list \<Rightarrow> detected list \<times> mask"
where
  "annotate_and_collect dominant height_px width_px bboxes =
     annotate_loop dominant 1 bboxes [] (zeros height_px width_px)"

text \<open>\<^verbatim>\<open>int(np.sum(mask == 255))\<close>\<close>

definition count_set :: "mask \<Rightarrow> int" where
  "count_set m =
     sum_list (map (\<lambda>py. sum_list (map (\<lambda>px. if mask_at m px py = 255 then 1 else 0)
                                        [0..int (mask_width m) - 1]))
                   [0..int (mask_height m) - 1])"

text \<open>
  The integer part of the summary of \<^verbatim>\<open>summarize_and_label\<close> that does not depend on
  the content bounding box: the occupied pixels, the empty pixels and the count of
  rectangles. The percentages are floating-point numbers and are left out.
\<close>

record summary =
  total_pixels :: int
  occupied_pixels :: int
  empty_pixels :: int
  rectangle_count :: nat

definition summarize_and_label :: "mask \<Rightarrow> detected list \<Rightarrow> int \<Rightarrow> summary" where
  "summarize_and_label m rectangles total_count =
     (let real_occupied_pixels = count_set m;
          empty_count = total_count - real_occupied_pixels
      in \<lparr>total_pixels = total_count, occupied_pixels = real_occupied_pixels,
          empty_pixels = empty_count, rectangle_count = length rectangles\<rparr>)"

text \<open>
  \<^verbatim>\<open>analyze_rectangles_and_empty_space\<close> from the candidates on: the image is
  \<open>height_px\<close> by \<open>width_px\<close>.
\<close>

definition analyze_bboxes :: "(bbox \<Rightarrow> rgb) \<Rightarrow> nat \<Rightarrow> nat \<Rightarrow> bbox list \<Rightarrow> summary" where
  "analyze_bboxes dominant height_px width_px bboxes =
     (let total_count = int width_px * int height_px;
          (rectangles, m) = annotate_and_collect dominant height_px width_px bboxes
      in summarize_and_label m rectangles total_count)"

text \<open>
  Two candidates share a pixel: \<^verbatim>\<open>boundingRect\<close> describes the pixels
  \<open>x \<le> px < x + w\<close>, \<open>y \<le> py < y + h\<close>.
\<close>

definition bboxes_overlap :: "bbox \<Rightarrow> bbox \<Rightarrow> bool" where
  "bboxes_overlap a b =
     (case a of (ax, ay, aw, ah) \<Rightarrow> case b of (bx, by', bw, bh) \<Rightarrow>
        max ax bx < min (ax + aw) (bx + bw) \<and> max ay by' < min (ay + ah) (by' + bh))"

text \<open>
  Two 25x20 candidates (area 500 each, the detector's minimum) that share the single
  pixel (24, 19), in an image of 50x40 pixels.
\<close>

definition corner_bboxes :: "bbox list" where
  "corner_bboxes = [(0, 0, 25, 20), (24, 19, 25, 20)]"

definition no_color :: "bbox \<Rightarrow> rgb" where
  "no_color b = (0, 0, 0)"

section \<open>Bin-packing optimizer (solutions\_gen.py)\<close>

text \<open>
  \<^verbatim>\<open>rectpack\<close> is a third-party library, so its packer is a parameter of the
  model: \<open>packer rects W H\<close> stands for \<^verbatim>\<open>newPacker(rotation=True)\<close>, one
  \<^verbatim>\<open>add_rect(w, h, rid=idx)\<close> for each entry of \<open>rects\<close> in order,
  \<^verbatim>\<open>add_bin(W, H)\<close>, \<^verbatim>\<open>pack()\<close> and the result of \<^verbatim>\<open>rect_list()\<close>, a list of
  tuples \<^verbatim>\<open>(b, x, y, w, h, rid)\<close>; it may raise.
\<close>

type_synonym packed = "nat \<times> int \<times> int \<times> int \<times> int \<times> nat"

type_synonym packer = "(int \<times> int) list \<Rightarrow> int \<Rightarrow> int \<Rightarrow> error + packed list"

text \<open>Python's \<^verbatim>\<open>min\<close> and \<^verbatim>\<open>max\<close> of a sequence: ValueError when it is empty.\<close>

definition py_min :: "int list \<Rightarrow> error + int" where
  "py_min xs = (case xs of [] \<Rightarrow> Inl ValueError | x # rest \<Rightarrow> Inr (fold min rest x))"

definition py_max :: "int list \<Rightarrow> error + int" where
  "py_max xs = (case xs of [] \<Rightarrow> Inl ValueError | x # rest \<Rightarrow> Inr (fold max rest x))"

text \<open>\<^verbatim>\<open>range(start, stop, step)\<close> for a positive step.\<close>

definition py_range :: "int \<Rightarrow> int \<Rightarrow> int \<Rightarrow> int list" where
  "py_range start stop step =
     map (\<lambda>i. start + int i * step) [0..<nat ((stop - start + step - 1) div step)]"

record bounds =
  b_left :: int
  b_top :: int
  b_right :: int
  b_bottom :: int

text \<open>\<^verbatim>\<open>compute_bounds\<close>: the covering rectangle, expanded by the outline and clamped.\<close>

definition compute_bounds :: "box list \<Rightarrow> error + bounds" where
  "compute_bounds boxes =
     (case py_min (map xpos boxes) of Inl e \<Rightarrow> Inl e | Inr min_x0 \<Rightarrow>
      case py_min (map ypos boxes) of Inl e \<Rightarrow> Inl e | Inr min_y0 \<Rightarrow>
      case py_max (map (\<lambda>b. xpos b + width b) boxes) of Inl e \<Rightarrow> Inl e | Inr max_x0 \<Rightarrow>
      case py_max (map (\<lambda>b. ypos b + height b) boxes) of Inl e \<Rightarrow> Inl e | Inr max_y0 \<Rightarrow>
        Inr \<lparr>b_left = max (min_x0 - OUTLINE_WIDTH) 0,
             b_top = max (min_y0 - OUTLINE_WIDTH) 0,
             b_right = min (max_x0 + OUTLINE_WIDTH) IMAGE_WIDTH,
             b_bottom = min (max_y0 + OUTLINE_WIDTH) IMAGE_HEIGHT\<rparr>)"

text \<open>
  The area \<^verbatim>\<open>(right - left) * (bottom - top)\<close> of the bounds of a placement: the
  \<^verbatim>\<open>used_area\<close> of \<^verbatim>\<open>try_pack_in_bin\<close>.
\<close>

definition used_area :: "box list \<Rightarrow> error + int" where
  "used_area placements =
     (case compute_bounds placements of
        Inl e \<Rightarrow> Inl e
      | Inr bnds \<Rightarrow> Inr ((b_right bnds - b_left bnds) * (b_bottom bnds - b_top bnds)))"

text \<open>
  The loop over \<^verbatim>\<open>rects\<close> of \<^verbatim>\<open>try_pack_in_bin\<close>; \<^verbatim>\<open>boxes[rid]\<close> raises
  IndexError out of range.
\<close>

fun build_placements :: "sized list \<Rightarrow> packed list \<Rightarrow> error + box list" where
  "build_placements boxes [] = Inr []"
| "build_placements boxes ((b, x, y, w, h, rid) # rects) =
     (if rid < length boxes then
        (case build_placements boxes rects of
           Inl e \<Rightarrow> Inl e
         | Inr placements \<Rightarrow>
             Inr (\<lparr>color_name = color_name (boxes ! rid), color = color (boxes ! rid),
                   width = w, height = h, xpos = x, ypos = y\<rparr> # placements))
      else Inl IndexError)"

text \<open>\<^verbatim>\<open>try_pack_in_bin\<close>: \<open>None\<close> when some rectangle was not packed.\<close>

definition try_pack_in_bin ::
  "packer \<Rightarrow> sized list \<Rightarrow> int \<Rightarrow> int \<Rightarrow> error + (box list \<times> int) option"
where
  "try_pack_in_bin packer boxes bin_w bin_h =
     (case packer (map (\<lambda>b. (width b, height b)) boxes) bin_w bin_h of
        Inl e \<Rightarrow> Inl e
      | Inr rects \<Rightarrow>
          if length rects < length boxes then Inr None
          else (case build_placements boxes rects of
                  Inl e \<Rightarrow> Inl e
                | Inr placements \<Rightarrow>
                    (case used_area placements of
                       Inl e \<Rightarrow> Inl e
                     | Inr a \<Rightarrow> Inr (Some (placements, a)))))"

text \<open>
  \<^verbatim>\<open>generate_candidate_bins\<close>. \<^verbatim>\<open>int(math.ceil(math.sqrt(total_area)))\<close> is a
  floating-point computation that may raise, and is the parameter \<open>ceil_sqrt\<close>. The
  candidate sets become duplicate-free sorted lists. Python sorts the set of bins by
  area and leaves the order of bins of equal area to the iteration order of the set;
  the model takes them in the order of their widths.
\<close>

definition candidate_sizes :: "int \<Rightarrow> int \<Rightarrow> int \<Rightarrow> int list" where
  "candidate_sizes max_size base limit =
     sort (remdups (filter (\<lambda>w. w \<le> limit)
       ([max_size, base, limit] @ py_range max_size (limit + 1) 25 @
        py_range max_size (limit + 1) 50 @ py_range max_size (limit + 1) 100)))"

definition generate_candidate_bins ::
  "(int \<Rightarrow> error + int) \<Rightarrow> sized list \<Rightarrow> error + (int \<times> int) list"
where
  "generate_candidate_bins ceil_sqrt boxes =
     (let total_area = sum_list (map (\<lambda>b. width b * height b) boxes) in
      case py_max (map width boxes) of Inl e \<Rightarrow> Inl e | Inr max_width \<Rightarrow>
      case py_max (map height boxes) of Inl e \<Rightarrow> Inl e | Inr max_height \<Rightarrow>
      case ceil_sqrt total_area of Inl e \<Rightarrow> Inl e | Inr base \<Rightarrow>
        (let widths = candidate_sizes max_width base IMAGE_WIDTH;
             heights = candidate_sizes max_height base IMAGE_HEIGHT;
             bins = concat (map (\<lambda>w. map (\<lambda>h. (w, h))
                       (filter (\<lambda>h. w \<ge> max_width \<and> h \<ge> max_height) heights)) widths)
         in Inr (sort_key (\<lambda>(w, h). w * h) bins)))"

text \<open>
  The loop of \<^verbatim>\<open>pack_boxes\<close> over the candidates, with \<^verbatim>\<open>best_result\<close> as an
  argument; the \<^verbatim>\<open>break\<close> returns at once.
\<close>

fun pack_loop ::
  "packer \<Rightarrow> sized list \<Rightarrow> int \<Rightarrow> (box list \<times> int) option \<Rightarrow> (int \<times> int) list
     \<Rightarrow> error + (box list \<times> int) option"
where
  "pack_loop packer boxes min_possible_area best_result [] = Inr best_result"
| "pack_loop packer boxes min_possible_area best_result ((bin_w, bin_h) # bins) =
     (case try_pack_in_bin packer boxes bin_w bin_h of
        Inl e \<Rightarrow> Inl e
      | Inr None \<Rightarrow> pack_loop packer boxes min_possible_area best_result bins
      | Inr (Some (placements, a)) \<Rightarrow>
          if (case best_result of None \<Rightarrow> True | Some (p, best_area) \<Rightarrow> a < best_area)
          then (if a \<le> min_possible_area then Inr (Some (placements, a))
                else pack_loop packer boxes min_possible_area (Some (placements, a)) bins)
          else pack_loop packer boxes min_possible_area best_result bins)"

definition pack_boxes :: "packer \<Rightarrow> (int \<Rightarrow> error + int) \<Rightarrow> sized list \<Rightarrow> error + box list" where
  "pack_boxes packer ceil_sqrt boxes =
     (let min_possible_area = sum_list (map (\<lambda>b. width b * height b) boxes) in
      case generate_candidate_bins ceil_sqrt boxes of Inl e \<Rightarrow> Inl e | Inr bins \<Rightarrow>
      case pack_loop packer boxes min_possible_area None bins of Inl e \<Rightarrow> Inl e
      | Inr (Some (placements, a)) \<Rightarrow> sort_by_color placements
      | Inr None \<Rightarrow>
         (case try_pack_in_bin packer boxes IMAGE_WIDTH IMAGE_HEIGHT of
            Inl e \<Rightarrow> Inl e
          | Inr None \<Rightarrow> Inl RuntimeError
          | Inr (Some (placements, a)) \<Rightarrow> sort_by_color placements))"

subsection \<open>What the model expects of rectpack\<close>

text \<open>Two packed rectangles overlap, by the test of \<open>boxes_overlap\<close>.\<close>

definition packed_overlap :: "packed \<Rightarrow> packed \<Rightarrow> bool" where
  "packed_overlap p q =
     (case p of (pb, px, py, pw, ph, prid) \<Rightarrow> case q of (qb, qx, qy, qw, qh, qrid) \<Rightarrow>
        px < qx + qw \<and> qx < px + pw \<and> py < qy + qh \<and> qy < py + ph)"

text \<open>
  One packed rectangle is well formed for the request: it carries the rid of a
  rectangle that was added, with that rectangle's positive dimensions, possibly
  swapped, and lies within the bin.
\<close>

definition packed_ok :: "(int \<times> int) list \<Rightarrow> int \<Rightarrow> int \<Rightarrow> packed \<Rightarrow> bool" where
  "packed_ok rects bin_w bin_h p =
     (case p of (b, x, y, w, h, rid) \<Rightarrow>
        rid < length rects \<and> (rects ! rid = (w, h) \<or> rects ! rid = (h, w)) \<and>
        0 < w \<and> 0 < h \<and> 0 \<le> x \<and> 0 \<le> y \<and> x + w \<le> bin_w \<and> y + h \<le> bin_h)"

definition rid_of :: "packed \<Rightarrow> nat" where
  "rid_of p = (case p of (b, x, y, w, h, rid) \<Rightarrow> rid)"

text \<open>
  The contract of the packer: whatever it returns is a list of well-formed packed
  rectangles with distinct rids that do not overlap one another.
\<close>

definition rectpack_contract :: "packer \<Rightarrow> bool" where
  "rectpack_contract packer =
     (\<forall>rects bin_w bin_h out. packer rects bin_w bin_h = Inr out \<longrightarrow>
        distinct (map rid_of out) \<and> list_all (packed_ok rects bin_w bin_h) out \<and>
        sorted_wrt (\<lambda>p q. \<not> packed_overlap p q) out)"

text \<open>
  A packer that satisfies the contract: it puts the rectangles that fit side by side in
  one row, unrotated, and refuses a rectangle without positive dimensions as
  rectpack's \<^verbatim>\<open>add_rect\<close> does.
\<close>

fun row_pack :: "nat \<Rightarrow> int \<Rightarrow> (int \<times> int) list \<Rightarrow> int \<Rightarrow> int \<Rightarrow> packed list" where
  "row_pack rid cursor [] bin_w bin_h = []"
| "row_pack rid cursor ((w, h) # rects) bin_w bin_h =
     (if cursor + w \<le> bin_w \<and> h \<le> bin_h
      then (0, cursor, 0, w, h, rid) # row_pack (rid + 1) (cursor + w) rects bin_w bin_h
      else row_pack (rid + 1) cursor rects bin_w bin_h)"

definition row_packer :: packer where
  "row_packer rects bin_w bin_h =
     (if list_all (\<lambda>(w, h). 0 < w \<and> 0 < h) rects then Inr (row_pack 0 0 rects bin_w bin_h)
      else Inl AssertionError)"

text \<open>
  An integer square root for the parameter \<open>ceil_sqrt\<close>: Newton's iteration from
  \<open>n\<close> downwards, for a bounded number of steps, then rounded up.
\<close>

fun newton_sqrt :: "nat \<Rightarrow> int \<Rightarrow> int \<Rightarrow> int" where
  "newton_sqrt 0 n k = k"
| "newton_sqrt (Suc fuel) n k =
     (if k \<le> 0 then k
      else (let k' = (k + n div k) div 2 in if k' < k then newton_sqrt fuel n k' else k))"

definition int_ceil_sqrt :: "int \<Rightarrow> error + int" where
  "int_ceil_sqrt n =
     (if n < 0 then Inl ValueError
      else (let k = newton_sqrt 64 n n in Inr (if k * k = n then k else k + 1)))"

text \<open>The rectangle's attributes with its dimensions in ascending order.\<close>

definition triple_unrotated :: "'a sized_scheme \<Rightarrow> int \<times> int \<times> rgb" where
  "triple_unrotated b = (min (width b) (height b), max (width b) (height b), color b)"

definition mk_sized :: "string \<Rightarrow> int \<Rightarrow> int \<Rightarrow> sized" where
  "mk_sized name w h =
     \<lparr>color_name = name, color = the (map_of COLORS name), width = w, height = h\<rparr>"

text \<open>Two rectangles that fit side by side in bins at least 790 wide.\<close>

definition wide_sized :: "sized list" where
  "wide_sized = [mk_sized ''red'' 700 590, mk_sized ''blue'' 90 500]"




subsection \<open>Notions used in the proofs\<close>

text \<open>The unit cells covered by a rectangle.\<close>

definition cells :: "box \<Rightarrow> (int \<times> int) set" where
  "cells b = {xpos b ..< xpos b + width b} \<times> {ypos b ..< ypos b + height b}"

text \<open>The placement that \<^verbatim>\<open>try_pack_in_bin\<close> builds from one packed rectangle.\<close>

definition place_of :: "sized list \<Rightarrow> packed \<Rightarrow> box" where
  "place_of boxes p =
     (case p of (b, x, y, w, h, rid) \<Rightarrow>
        \<lparr>color_name = color_name (boxes ! rid), color = color (boxes ! rid),
         width = w, height = h, xpos = x, ypos = y\<rparr>)"

definition triple_area :: "int \<times> int \<times> rgb \<Rightarrow> int" where
  "triple_area t = (case t of (m, M, c) \<Rightarrow> m * M)"

section \<open>Properties of the overlap test\<close>

lemma boxes_overlap_iff:
  "boxes_overlap a b =
     (xpos a < xpos b + width b \<and> xpos b < xpos a + width a \<and>
      ypos a < ypos b + height b \<and> ypos b < ypos a + height a)"
  by (auto simp: boxes_overlap_def Let_def)

lemma boxes_overlap_sym: "boxes_overlap a b = boxes_overlap b a"
  by (auto simp: boxes_overlap_iff)

text \<open>
  C8. The overlap test is true exactly when the x-extents and the y-extents both cross
  with strict inequalities; two rectangles that touch at an edge (one's right is the
  other's left, one's bottom is the other's top) do not overlap; and for rectangles of
  positive width and height the test is true exactly when the x-intervals and the
  y-intervals both meet in an interval of positive length.
\<close>

theorem boxes_overlap_strict_interior:
  "(boxes_overlap a b \<longleftrightarrow>
      \<not> (xpos a + width a \<le> xpos b \<or> xpos a \<ge> xpos b + width b) \<and>
      \<not> (ypos a + height a \<le> ypos b \<or> ypos a \<ge> ypos b + height b))
   \<and> (xpos a + width a = xpos b \<or> xpos b + width b = xpos a \<or>
       ypos a + height a = ypos b \<or> ypos b + height b = ypos a
        \<longrightarrow> \<not> boxes_overlap a b)
   \<and> (0 < width a \<and> 0 < height a \<and> 0 < width b \<and> 0 < height b \<longrightarrow>
        (boxes_overlap a b \<longleftrightarrow>
           interior_meet (xpos a) (xpos a + width a) (xpos b) (xpos b + width b) \<and>
           interior_meet (ypos a) (ypos a + height a) (ypos b) (ypos b + height b)))"
  by (auto simp: boxes_overlap_iff interior_meet_def)

theorem boxes_overlap_strict_interior_witness:
  "boxes_overlap (mk_box ''red'' 100 80 0 0) (mk_box ''green'' 60 60 50 40) \<and>
   interior_meet 0 100 50 110 \<and> interior_meet 0 80 40 100 \<and>
   xpos (mk_box ''red'' 100 80 0 0) + width (mk_box ''red'' 100 80 0 0)
     = xpos (mk_box ''blue'' 150 50 100 0) \<and>
   \<not> boxes_overlap (mk_box ''red'' 100 80 0 0) (mk_box ''blue'' 150 50 100 0)"
  using boxes_overlap_strict_interior[of "mk_box ''red'' 100 80 0 0" "mk_box ''green'' 60 60 50 40"]
    boxes_overlap_strict_interior[of "mk_box ''red'' 100 80 0 0" "mk_box ''blue'' 150 50 100 0"]
  by (simp add: mk_box_def interior_meet_def)

section \<open>Properties of the placer\<close>

subsection \<open>One rectangle: random attempts, then the grid\<close>

lemma only_moved_refl: "only_moved idx boxes boxes"
  by (simp add: only_moved_def)

lemma only_moved_trans:
  "only_moved idx a b \<Longrightarrow> only_moved idx b c \<Longrightarrow> only_moved idx a c"
  by (simp add: only_moved_def)

lemma only_moved_set_position: "only_moved idx boxes (set_position boxes idx x y)"
  by (cases "idx < length boxes")
     (simp_all add: only_moved_def set_position_def nth_list_update attrs_def)

lemma set_position_nth:
  "idx < length boxes \<Longrightarrow>
     xpos (set_position boxes idx x y ! idx) = x \<and> ypos (set_position boxes idx x y ! idx) = y
     \<and> width (set_position boxes idx x y ! idx) = width (boxes ! idx)
     \<and> height (set_position boxes idx x y ! idx) = height (boxes ! idx)"
  by (simp add: set_position_def)

lemma only_moved_dims:
  "only_moved idx boxes boxes' \<Longrightarrow> j < length boxes \<Longrightarrow>
     width (boxes' ! j) = width (boxes ! j) \<and> height (boxes' ! j) = height (boxes ! j) \<and>
     color (boxes' ! j) = color (boxes ! j) \<and> color_name (boxes' ! j) = color_name (boxes ! j)"
  by (simp add: only_moved_def attrs_def)

lemma randint_range: "randint rnd k a b = Inr v \<Longrightarrow> a \<le> v \<and> v \<le> b"
proof -
  assume h: "randint rnd k a b = Inr v"
  then have ab: "a \<le> b" by (auto simp: randint_def split: if_splits)
  from h ab have v: "v = a + int (rnd k mod nat (b - a + 1))"
    by (auto simp: randint_def)
  have "rnd k mod nat (b - a + 1) < nat (b - a + 1)" using ab by (intro mod_less_divisor) simp
  then show ?thesis using v ab by linarith
qed

lemma range_step_bounds: "v \<in> set (range_step stop 5) \<Longrightarrow> 0 \<le> v \<and> v < stop"
proof -
  assume "v \<in> set (range_step stop 5)"
  then obtain i where i: "i < nat ((stop + 5 - 1) div 5)" and v: "v = int i * 5"
    by (auto simp: range_step_def)
  from i have "int i < (stop + 4) div 5" by simp
  then have "int i + 1 \<le> (stop + 4) div 5" by simp
  then have "(int i + 1) * 5 \<le> stop + 4" by presburger
  then show ?thesis using v by simp
qed


lemma random_attempts_result:
  assumes "random_attempts n rnd k boxes placed idx = Inr (found, boxes', k')"
    and "idx < length boxes"
  shows "only_moved idx boxes boxes' \<and>
         (found \<longrightarrow> in_canvas (boxes' ! idx) \<and> no_overlap_with_placed boxes' placed idx)"
  using assms
proof (induction n arbitrary: k boxes)
  case 0
  then show ?case by (simp add: only_moved_refl)
next
  case (Suc n)
  from Suc.prems(1) obtain x y where
    x: "randint rnd k 0 (IMAGE_WIDTH - width (boxes ! idx)) = Inr x" and
    y: "randint rnd (k + 1) 0 (IMAGE_HEIGHT - height (boxes ! idx)) = Inr y"
    by (auto split: sum.splits)
  let ?b = "set_position boxes idx x y"
  have om: "only_moved idx boxes ?b" by (rule only_moved_set_position)
  have len: "idx < length ?b" using Suc.prems(2) by (simp add: set_position_def)
  have canvas: "in_canvas (?b ! idx)"
    using randint_range[OF x] randint_range[OF y] set_position_nth[OF Suc.prems(2), of x y]
    by (simp add: in_canvas_def)
  show ?case
  proof (cases "no_overlap_with_placed ?b placed idx")
    case True
    with Suc.prems(1) x y have "found" "boxes' = ?b" by (simp_all add: Let_def)
    with om canvas True show ?thesis by simp
  next
    case False
    with Suc.prems(1) x y have "random_attempts n rnd (k + 2) ?b placed idx = Inr (found, boxes', k')"
      by (simp add: Let_def)
    from Suc.IH[OF this len] om show ?thesis by (blast intro: only_moved_trans)
  qed
qed

lemma scan_x_result:
  assumes "scan_x boxes placed idx y xs = (found, boxes')"
    and "idx < length boxes"
    and "\<forall>x\<in>set xs. 0 \<le> x \<and> x + width (boxes ! idx) \<le> IMAGE_WIDTH"
    and "0 \<le> y \<and> y + height (boxes ! idx) \<le> IMAGE_HEIGHT"
  shows "only_moved idx boxes boxes' \<and>
         (found \<longrightarrow> in_canvas (boxes' ! idx) \<and> no_overlap_with_placed boxes' placed idx)"
  using assms
proof (induction xs arbitrary: boxes)
  case Nil
  then show ?case by (simp add: only_moved_refl)
next
  case (Cons x xs)
  let ?b = "set_position boxes idx x y"
  have om: "only_moved idx boxes ?b" by (rule only_moved_set_position)
  have len: "idx < length ?b" using Cons.prems(2) by (simp add: set_position_def)
  have dims: "width (?b ! idx) = width (boxes ! idx)" "height (?b ! idx) = height (boxes ! idx)"
    using set_position_nth[OF Cons.prems(2), of x y] by simp_all
  have canvas: "in_canvas (?b ! idx)"
    using Cons.prems(3,4) set_position_nth[OF Cons.prems(2), of x y]
    by (simp add: in_canvas_def)
  show ?case
  proof (cases "no_overlap_with_placed ?b placed idx")
    case True
    with Cons.prems(1) have "found" "boxes' = ?b" by (simp_all add: Let_def)
    with om canvas True show ?thesis by simp
  next
    case False
    with Cons.prems(1) have "scan_x ?b placed idx y xs = (found, boxes')"
      by (simp add: Let_def)
    from Cons.IH[OF this len] Cons.prems(3,4) dims om show ?thesis
      by (auto intro: only_moved_trans)
  qed
qed

lemma scan_y_result:
  assumes "scan_y boxes placed idx ys = (found, boxes')"
    and "idx < length boxes"
    and "\<forall>y\<in>set ys. 0 \<le> y \<and> y + height (boxes ! idx) \<le> IMAGE_HEIGHT"
  shows "only_moved idx boxes boxes' \<and>
         (found \<longrightarrow> in_canvas (boxes' ! idx) \<and> no_overlap_with_placed boxes' placed idx)"
  using assms
proof (induction ys arbitrary: boxes)
  case Nil
  then show ?case by (simp add: only_moved_refl)
next
  case (Cons y ys)
  obtain f1 b1 where sx: "scan_x boxes placed idx y
       (range_step (IMAGE_WIDTH - width (boxes ! idx) + 1) 5) = (f1, b1)"
    by (cases "scan_x boxes placed idx y (range_step (IMAGE_WIDTH - width (boxes ! idx) + 1) 5)")
  have xs: "\<forall>x\<in>set (range_step (IMAGE_WIDTH - width (boxes ! idx) + 1) 5).
              0 \<le> x \<and> x + width (boxes ! idx) \<le> IMAGE_WIDTH"
    using range_step_bounds by fastforce
  have r1: "only_moved idx boxes b1 \<and>
         (f1 \<longrightarrow> in_canvas (b1 ! idx) \<and> no_overlap_with_placed b1 placed idx)"
    using scan_x_result[OF sx Cons.prems(2) xs] Cons.prems(3) by simp
  show ?case
  proof (cases f1)
    case True
    with Cons.prems(1) sx have "found" "boxes' = b1" by simp_all
    with r1 True show ?thesis by simp
  next
    case False
    with Cons.prems(1) sx have rest: "scan_y b1 placed idx ys = (found, boxes')" by simp
    have len: "idx < length b1" using r1 Cons.prems(2) by (simp add: only_moved_def)
    have dims: "height (b1 ! idx) = height (boxes ! idx)"
      using only_moved_dims[of idx boxes b1 idx] r1 Cons.prems(2) by simp
    from Cons.IH[OF rest len] Cons.prems(3) dims r1 show ?thesis
      by (auto intro: only_moved_trans)
  qed
qed

lemma place_one_result:
  assumes "place_one rnd k boxes placed idx = Inr (boxes', placed', k')"
    and "idx < length boxes"
  shows "only_moved idx boxes boxes' \<and> placed' = placed @ [idx] \<and>
         in_canvas (boxes' ! idx) \<and> no_overlap_with_placed boxes' placed idx"
proof -
  from assms(1) obtain f1 b1 k1 where
    ra: "random_attempts 500 rnd k boxes placed idx = Inr (f1, b1, k1)"
    by (auto simp: place_one_def split: sum.splits)
  note r1 = random_attempts_result[OF ra assms(2)]
  show ?thesis
  proof (cases f1)
    case True
    with assms(1) ra have "boxes' = b1" "placed' = placed @ [idx]"
      by (simp_all add: place_one_def)
    with r1 True show ?thesis by simp
  next
    case False
    obtain f2 b2 where gf: "grid_fallback b1 placed idx = (f2, b2)"
      by (cases "grid_fallback b1 placed idx")
    with assms(1) ra False have f2: "f2" and eq: "boxes' = b2" "placed' = placed @ [idx]"
      by (auto simp: place_one_def split: if_splits)
    have len: "idx < length b1" using r1 assms(2) by (simp add: only_moved_def)
    have ys: "\<forall>y\<in>set (range_step (IMAGE_HEIGHT - height (b1 ! idx) + 1) 5).
              0 \<le> y \<and> y + height (b1 ! idx) \<le> IMAGE_HEIGHT"
      using range_step_bounds by fastforce
    from gf have "scan_y b1 placed idx (range_step (IMAGE_HEIGHT - height (b1 ! idx) + 1) 5) = (f2, b2)"
      by (simp add: grid_fallback_def)
    from scan_y_result[OF this len ys] f2 eq r1 show ?thesis
      by (auto intro: only_moved_trans)
  qed
qed

lemma only_moved_attrs: "only_moved idx boxes boxes' \<Longrightarrow> map attrs boxes' = map attrs boxes"
  by (auto simp: only_moved_def intro: nth_equalityI)

lemma place_one_placed_ok:
  assumes po: "place_one rnd k boxes placed idx = Inr (boxes', placed', k')"
    and len: "idx < length boxes" and new: "idx \<notin> set placed"
    and ok: "placed_ok boxes placed"
  shows "placed_ok boxes' placed' \<and> set placed' = insert idx (set placed) \<and>
         map attrs boxes' = map attrs boxes"
proof -
  note r = place_one_result[OF po len]
  from r have om: "only_moved idx boxes boxes'" and p': "placed' = placed @ [idx]"
    and canvas: "in_canvas (boxes' ! idx)" and free: "no_overlap_with_placed boxes' placed idx"
    by simp_all
  have same: "\<And>j. j \<in> set placed \<Longrightarrow> boxes' ! j = boxes ! j"
    using om ok new by (auto simp: only_moved_def placed_ok_def)
  have l': "length boxes' = length boxes" using om by (simp add: only_moved_def)
  have a: "\<forall>i\<in>set placed'. i < length boxes' \<and> in_canvas (boxes' ! i)"
    using p' l' len canvas same ok by (auto simp: placed_ok_def)
  have f: "\<And>j. j \<in> set placed \<Longrightarrow> \<not> boxes_overlap (boxes' ! idx) (boxes' ! j)"
    using free by (simp add: no_overlap_with_placed_def list_all_iff)
  have b: "\<forall>i\<in>set placed'. \<forall>j\<in>set placed'. i \<noteq> j \<longrightarrow> \<not> boxes_overlap (boxes' ! i) (boxes' ! j)"
  proof (intro ballI impI)
    fix i j assume i: "i \<in> set placed'" and j: "j \<in> set placed'" and ne: "i \<noteq> j"
    consider "i = idx" "j \<in> set placed" | "j = idx" "i \<in> set placed"
      | "i \<in> set placed" "j \<in> set placed"
      using i j ne p' by auto
    then show "\<not> boxes_overlap (boxes' ! i) (boxes' ! j)"
    proof cases
      case 1 then show ?thesis using f by simp
    next
      case 2 then show ?thesis using f boxes_overlap_sym by blast
    next
      case 3 then show ?thesis using same ok ne by (simp add: placed_ok_def)
    qed
  qed
  from a b p' only_moved_attrs[OF om] show ?thesis by (simp add: placed_ok_def)
qed

lemma place_all_placed_ok:
  assumes "place_all rnd k boxes placed order = Inr (boxes', placed', k')"
    and "\<forall>i\<in>set order. i < length boxes" and "distinct order"
    and "set order \<inter> set placed = {}"
    and "placed_ok boxes placed"
  shows "placed_ok boxes' placed' \<and> set placed' = set placed \<union> set order \<and>
         map attrs boxes' = map attrs boxes"
  using assms
proof (induction order arbitrary: k boxes placed)
  case Nil
  then show ?case by simp
next
  case (Cons idx order)
  from Cons.prems(1) obtain b1 p1 k1 where
    po: "place_one rnd k boxes placed idx = Inr (b1, p1, k1)" and
    rest: "place_all rnd k1 b1 p1 order = Inr (boxes', placed', k')"
    by (auto split: sum.splits)
  have len: "idx < length boxes" and new: "idx \<notin> set placed"
    using Cons.prems(2,4) by auto
  note s = place_one_placed_ok[OF po len new Cons.prems(5)]
  have l1: "length b1 = length boxes" using s by (metis length_map)
  have h2: "\<forall>i\<in>set order. i < length b1" using Cons.prems(2) l1 by simp
  have h3: "distinct order" using Cons.prems(3) by simp
  have h4: "set order \<inter> set p1 = {}" using Cons.prems(3,4) s by auto
  have h5: "placed_ok b1 p1" using s by simp
  from Cons.IH[OF rest h2 h3 h4 h5] s show ?case by auto
qed

lemma placement_order_perm:
  "distinct (placement_order boxes) \<and> set (placement_order boxes) = {0..<length boxes}"
  by (simp add: placement_order_def)

lemma place_all_total_ok:
  assumes "place_all rnd 0 boxes [] (placement_order boxes) = Inr (boxes', placed', k')"
  shows "length boxes' = length boxes \<and> map attrs boxes' = map attrs boxes \<and>
         (\<forall>i<length boxes'. in_canvas (boxes' ! i)) \<and>
         (\<forall>i<length boxes'. \<forall>j<length boxes'. i \<noteq> j \<longrightarrow> \<not> boxes_overlap (boxes' ! i) (boxes' ! j))"
proof -
  have "placed_ok boxes' placed' \<and> set placed' = set [] \<union> set (placement_order boxes) \<and>
         map attrs boxes' = map attrs boxes"
    by (rule place_all_placed_ok[OF assms]) (simp_all add: placement_order_perm placed_ok_def)
  then have ok: "placed_ok boxes' placed'" and all: "set placed' = {0..<length boxes}"
    and attrs: "map attrs boxes' = map attrs boxes"
    by (simp_all add: placement_order_perm)
  have len: "length boxes' = length boxes" using attrs by (metis length_map)
  from ok all len attrs show ?thesis by (simp add: placed_ok_def)
qed

lemma pairwise_iff_sorted_wrt:
  assumes sym: "\<And>a b. P a b \<Longrightarrow> P b a"
  shows "(\<forall>i<length xs. \<forall>j<length xs. i \<noteq> j \<longrightarrow> P (xs ! i) (xs ! j)) = sorted_wrt P xs"
proof
  assume "\<forall>i<length xs. \<forall>j<length xs. i \<noteq> j \<longrightarrow> P (xs ! i) (xs ! j)"
  then show "sorted_wrt P xs" by (simp add: sorted_wrt_iff_nth_less)
next
  assume s: "sorted_wrt P xs"
  show "\<forall>i<length xs. \<forall>j<length xs. i \<noteq> j \<longrightarrow> P (xs ! i) (xs ! j)"
  proof (intro allI impI)
    fix i j assume i: "i < length xs" and j: "j < length xs" and ne: "i \<noteq> j"
    show "P (xs ! i) (xs ! j)"
    proof (cases "i < j")
      case True
      with s j show ?thesis by (simp add: sorted_wrt_iff_nth_less)
    next
      case False
      with ne have "j < i" by simp
      with s i have "P (xs ! j) (xs ! i)" by (simp add: sorted_wrt_iff_nth_less)
      then show ?thesis by (rule sym)
    qed
  qed
qed

lemma sorted_wrt_insort_key:
  assumes sym: "\<And>a b. P a b \<Longrightarrow> P b a"
  shows "sorted_wrt P (insort_key f x xs) = ((\<forall>y\<in>set xs. P x y) \<and> sorted_wrt P xs)"
  by (induction xs) (auto simp: set_insort_key intro: sym)

lemma sorted_wrt_sort_key:
  assumes sym: "\<And>a b. P a b \<Longrightarrow> P b a"
  shows "sorted_wrt P xs \<Longrightarrow> sorted_wrt P (sort_key f xs)"
proof (induction xs)
  case Nil
  then show ?case by simp
next
  case (Cons x xs)
  have "sort_key f (x # xs) = insort_key f x (sort_key f xs)" by (simp add: sort_key_def)
  with Cons show ?case by (simp add: sorted_wrt_insort_key[of P, OF sym])
qed

lemma no_overlap_sym: "\<not> boxes_overlap a b \<Longrightarrow> \<not> boxes_overlap b a"
  using boxes_overlap_sym by simp

lemma arrange_result:
  assumes "arrange_boxes_without_overlap rnd boxes = Inr out"
  shows "mset (map attrs out) = mset (map attrs boxes) \<and> (\<forall>b\<in>set out. in_canvas b) \<and>
     (\<forall>i<length out. \<forall>j<length out. i \<noteq> j \<longrightarrow> \<not> boxes_overlap (out ! i) (out ! j))"
proof -
  from assms obtain bc pl k where
    pa: "place_all rnd 0 boxes [] (placement_order boxes) = Inr (bc, pl, k)" and
    sc: "sort_by_color bc = Inr out"
    by (auto simp: arrange_boxes_without_overlap_def split: sum.splits)
  note r = place_all_total_ok[OF pa]
  from sc have out: "out = sort_key (\<lambda>b. list_index COLOR_ORDER (color_name b)) bc"
    by (simp add: sort_by_color_def split: if_splits)
  have m: "mset out = mset bc" and st: "set out = set bc" by (simp_all add: out)
  have "mset (map attrs out) = mset (map attrs bc)" using m by (metis mset_map)
  then have c2: "mset (map attrs out) = mset (map attrs boxes)" using r by simp
  have c7: "\<forall>b\<in>set out. in_canvas b" using r st by (auto simp: in_set_conv_nth)
  have "sorted_wrt (\<lambda>a b. \<not> boxes_overlap a b) bc"
    using r pairwise_iff_sorted_wrt[of "\<lambda>a b. \<not> boxes_overlap a b" bc, OF no_overlap_sym]
    by simp
  then have "sorted_wrt (\<lambda>a b. \<not> boxes_overlap a b) out"
    unfolding out
    using sorted_wrt_sort_key[of "\<lambda>a b. \<not> boxes_overlap a b" bc, OF no_overlap_sym] by blast
  then have c1: "\<forall>i<length out. \<forall>j<length out. i \<noteq> j \<longrightarrow> \<not> boxes_overlap (out ! i) (out ! j)"
    using pairwise_iff_sorted_wrt[of "\<lambda>a b. \<not> boxes_overlap a b" out, OF no_overlap_sym]
    by simp
  from c2 c7 c1 show ?thesis by simp
qed

subsection \<open>The placer's output\<close>

lemma sample_run:
  "arrange_boxes_without_overlap sample_draws sample_boxes =
     Inr [mk_box ''red'' 100 80 11 48, mk_box ''green'' 60 60 233 270,
          mk_box ''blue'' 150 50 159 196]"
  by code_simp

text \<open>
  C1. Whenever the placer returns a list, no two rectangles at different positions of
  that list overlap under \<open>boxes_overlap\<close>.
\<close>

theorem placer_output_non_overlapping:
  assumes "arrange_boxes_without_overlap rnd boxes = Inr out"
  shows "\<forall>i<length out. \<forall>j<length out. i \<noteq> j \<longrightarrow> \<not> boxes_overlap (out ! i) (out ! j)"
  using arrange_result[OF assms] by simp

theorem placer_output_non_overlapping_witness:
  "arrange_boxes_without_overlap sample_draws sample_boxes =
     Inr [mk_box ''red'' 100 80 11 48, mk_box ''green'' 60 60 233 270,
          mk_box ''blue'' 150 50 159 196] \<and>
   \<not> boxes_overlap (mk_box ''red'' 100 80 11 48) (mk_box ''green'' 60 60 233 270) \<and>
   \<not> boxes_overlap (mk_box ''red'' 100 80 11 48) (mk_box ''blue'' 150 50 159 196) \<and>
   \<not> boxes_overlap (mk_box ''green'' 60 60 233 270) (mk_box ''blue'' 150 50 159 196)"
proof -
  note r = placer_output_non_overlapping[OF sample_run]
  from r[rule_format, of 0 1]
  have "\<not> boxes_overlap (mk_box ''red'' 100 80 11 48) (mk_box ''green'' 60 60 233 270)"
    by simp
  moreover from r[rule_format, of 0 2]
  have "\<not> boxes_overlap (mk_box ''red'' 100 80 11 48) (mk_box ''blue'' 150 50 159 196)"
    by simp
  moreover from r[rule_format, of 1 2]
  have "\<not> boxes_overlap (mk_box ''green'' 60 60 233 270) (mk_box ''blue'' 150 50 159 196)"
    by simp
  ultimately show ?thesis using sample_run by simp
qed

text \<open>
  C7. Whenever the placer returns a list, every rectangle of it lies within the canvas:
  \<open>0 \<le> x\<close>, \<open>x + width \<le> 800\<close>, \<open>0 \<le> y\<close> and \<open>y + height \<le> 600\<close>.
\<close>

theorem placer_output_in_canvas:
  assumes "arrange_boxes_without_overlap rnd boxes = Inr out"
  shows "\<forall>b\<in>set out. 0 \<le> xpos b \<and> xpos b + width b \<le> 800 \<and>
                     0 \<le> ypos b \<and> ypos b + height b \<le> 600"
  using arrange_result[OF assms] by (simp add: in_canvas_def IMAGE_WIDTH_def IMAGE_HEIGHT_def)

theorem placer_output_in_canvas_witness:
  "arrange_boxes_without_overlap sample_draws sample_boxes =
     Inr [mk_box ''red'' 100 80 11 48, mk_box ''green'' 60 60 233 270,
          mk_box ''blue'' 150 50 159 196] \<and>
   0 \<le> xpos (mk_box ''green'' 60 60 233 270) \<and>
   xpos (mk_box ''green'' 60 60 233 270) + width (mk_box ''green'' 60 60 233 270) \<le> 800 \<and>
   0 \<le> ypos (mk_box ''green'' 60 60 233 270) \<and>
   ypos (mk_box ''green'' 60 60 233 270) + height (mk_box ''green'' 60 60 233 270) \<le> 600"
  using placer_output_in_canvas[OF sample_run] sample_run by simp


subsection \<open>The fatal error of the placer\<close>


lemma attrs_eq_moved:
  fixes a b :: box
  assumes "attrs a = attrs b"
  shows "a\<lparr>xpos := x, ypos := y\<rparr> = b\<lparr>xpos := x, ypos := y\<rparr>"
  using assms by (cases a, cases b) (simp add: attrs_def)

lemma set_position_absorb:
  assumes "only_moved idx boxes boxes'"
  shows "set_position boxes' idx x y = set_position boxes idx x y"
proof (rule nth_equalityI)
  show "length (set_position boxes' idx x y) = length (set_position boxes idx x y)"
    using assms by (simp add: set_position_def only_moved_def)
next
  fix i assume "i < length (set_position boxes' idx x y)"
  then have i: "i < length boxes" "i < length boxes'"
    using assms by (simp_all add: set_position_def only_moved_def)
  show "set_position boxes' idx x y ! i = set_position boxes idx x y ! i"
  proof (cases "i = idx")
    case True
    have "attrs (boxes' ! idx) = attrs (boxes ! idx)"
      using assms i True by (simp add: only_moved_def)
    from attrs_eq_moved[OF this] i True show ?thesis by (simp add: set_position_def)
  next
    case False
    then show ?thesis using assms i by (simp add: set_position_def only_moved_def)
  qed
qed

lemma scan_x_only_moved:
  "scan_x boxes placed idx y xs = (found, boxes') \<Longrightarrow> only_moved idx boxes boxes'"
proof (induction xs arbitrary: boxes)
  case Nil
  then show ?case by (simp add: only_moved_refl)
next
  case (Cons x xs)
  let ?b = "set_position boxes idx x y"
  show ?case
  proof (cases "no_overlap_with_placed ?b placed idx")
    case True
    with Cons.prems have "boxes' = ?b" by (simp add: Let_def)
    then show ?thesis by (simp add: only_moved_set_position)
  next
    case False
    with Cons.prems have "scan_x ?b placed idx y xs = (found, boxes')" by (simp add: Let_def)
    from Cons.IH[OF this] show ?thesis
      using only_moved_set_position only_moved_trans by blast
  qed
qed

lemma scan_x_blocked:
  assumes "scan_x boxes placed idx y xs = (False, boxes')"
  shows "\<forall>x\<in>set xs. \<not> no_overlap_with_placed (set_position boxes idx x y) placed idx"
  using assms
proof (induction xs arbitrary: boxes)
  case Nil
  then show ?case by simp
next
  case (Cons x xs)
  let ?b = "set_position boxes idx x y"
  from Cons.prems have blocked: "\<not> no_overlap_with_placed ?b placed idx"
    and rest: "scan_x ?b placed idx y xs = (False, boxes')"
    by (auto simp: Let_def split: if_splits)
  have "\<forall>x'\<in>set xs. \<not> no_overlap_with_placed (set_position ?b idx x' y) placed idx"
    by (rule Cons.IH[OF rest])
  moreover have "\<And>x'. set_position ?b idx x' y = set_position boxes idx x' y"
    by (rule set_position_absorb) (rule only_moved_set_position)
  ultimately show ?case using blocked by simp
qed

lemma scan_y_blocked:
  assumes "scan_y boxes placed idx ys = (False, boxes')" and "idx < length boxes"
  shows "\<forall>y\<in>set ys. \<forall>x\<in>set (range_step (IMAGE_WIDTH - width (boxes ! idx) + 1) 5).
           \<not> no_overlap_with_placed (set_position boxes idx x y) placed idx"
  using assms
proof (induction ys arbitrary: boxes)
  case Nil
  then show ?case by simp
next
  case (Cons y ys)
  let ?xs = "range_step (IMAGE_WIDTH - width (boxes ! idx) + 1) 5"
  obtain f1 b1 where sx: "scan_x boxes placed idx y ?xs = (f1, b1)"
    by (cases "scan_x boxes placed idx y ?xs")
  with Cons.prems(1) have f1: "\<not> f1" and rest: "scan_y b1 placed idx ys = (False, boxes')"
    by (auto split: if_splits bool.splits)
  from sx f1 have sx': "scan_x boxes placed idx y ?xs = (False, b1)" by simp
  have om: "only_moved idx boxes b1" by (rule scan_x_only_moved[OF sx])
  have len: "idx < length b1" using om Cons.prems(2) by (simp add: only_moved_def)
  have w: "width (b1 ! idx) = width (boxes ! idx)"
    using only_moved_dims[OF om Cons.prems(2)] by simp
  have "\<forall>y'\<in>set ys. \<forall>x\<in>set ?xs.
           \<not> no_overlap_with_placed (set_position b1 idx x y') placed idx"
    using Cons.IH[OF rest len] w by simp
  then have tl: "\<forall>y'\<in>set ys. \<forall>x\<in>set ?xs.
           \<not> no_overlap_with_placed (set_position boxes idx x y') placed idx"
    using set_position_absorb[OF om] by simp
  from scan_x_blocked[OF sx'] tl show ?case by simp
qed

lemma random_attempts_fits:
  assumes "random_attempts (Suc n) rnd k boxes placed idx = Inr r"
  shows "width (boxes ! idx) \<le> IMAGE_WIDTH \<and> height (boxes ! idx) \<le> IMAGE_HEIGHT"
  using assms by (auto simp: randint_def split: sum.splits if_splits)

lemma range_step_zero: "0 < stop \<Longrightarrow> 0 \<in> set (range_step stop 5)"
proof -
  assume "0 < stop"
  then have "0 < (stop + 5 - 1) div 5" by presburger
  then have "0 \<in> set [0..<nat ((stop + 5 - 1) div 5)]" by simp
  then have "int 0 * 5 \<in> set (range_step stop 5)"
    unfolding range_step_def by (metis (no_types, lifting) image_eqI set_map)
  then show ?thesis by simp
qed

lemma random_attempts_error:
  "random_attempts n rnd k boxes placed idx = Inl e \<Longrightarrow> e = ValueError"
proof (induction n arbitrary: k boxes)
  case 0
  then show ?case by simp
next
  case (Suc n)
  show ?case
  proof (cases "randint rnd k 0 (IMAGE_WIDTH - width (boxes ! idx))")
    case (Inl a)
    with Suc.prems show ?thesis by (auto simp: randint_def split: if_splits)
  next
    case x: (Inr x)
    show ?thesis
    proof (cases "randint rnd (k + 1) 0 (IMAGE_HEIGHT - height (boxes ! idx))")
      case (Inl a)
      with Suc.prems x show ?thesis by (auto simp: randint_def split: if_splits)
    next
      case y: (Inr y)
      with Suc.prems x have
        "random_attempts n rnd (k + 2) (set_position boxes idx x y) placed idx = Inl e"
        by (auto simp: Let_def split: if_splits)
      then show ?thesis by (rule Suc.IH)
    qed
  qed
qed

lemma random_attempts_only_moved:
  "random_attempts n rnd k boxes placed idx = Inr (found, boxes', k') \<Longrightarrow>
     only_moved idx boxes boxes'"
proof (induction n arbitrary: k boxes)
  case 0
  then show ?case by (simp add: only_moved_refl)
next
  case (Suc n)
  from Suc.prems obtain x y where
    x: "randint rnd k 0 (IMAGE_WIDTH - width (boxes ! idx)) = Inr x" and
    y: "randint rnd (k + 1) 0 (IMAGE_HEIGHT - height (boxes ! idx)) = Inr y"
    by (auto split: sum.splits)
  let ?b = "set_position boxes idx x y"
  show ?case
  proof (cases "no_overlap_with_placed ?b placed idx")
    case True
    with Suc.prems x y have "boxes' = ?b" by (simp add: Let_def)
    then show ?thesis by (simp add: only_moved_set_position)
  next
    case False
    with Suc.prems x y have "random_attempts n rnd (k + 2) ?b placed idx = Inr (found, boxes', k')"
      by (simp add: Let_def)
    from Suc.IH[OF this] show ?thesis
      using only_moved_set_position only_moved_trans by blast
  qed
qed

lemma scan_y_only_moved:
  "scan_y boxes placed idx ys = (found, boxes') \<Longrightarrow> only_moved idx boxes boxes'"
proof (induction ys arbitrary: boxes)
  case Nil
  then show ?case by (simp add: only_moved_refl)
next
  case (Cons y ys)
  obtain f1 b1 where sx: "scan_x boxes placed idx y
       (range_step (IMAGE_WIDTH - width (boxes ! idx) + 1) 5) = (f1, b1)"
    by (cases "scan_x boxes placed idx y (range_step (IMAGE_WIDTH - width (boxes ! idx) + 1) 5)")
  note om = scan_x_only_moved[OF sx]
  show ?case
  proof (cases f1)
    case True
    with Cons.prems sx have "boxes' = b1" by simp
    with om show ?thesis by simp
  next
    case False
    with Cons.prems sx have "scan_y b1 placed idx ys = (found, boxes')" by simp
    from Cons.IH[OF this] om show ?thesis using only_moved_trans by blast
  qed
qed

lemma place_one_only_moved:
  assumes "place_one rnd k boxes placed idx = Inr (boxes', placed', k')"
  shows "only_moved idx boxes boxes' \<and> placed' = placed @ [idx]"
proof -
  from assms obtain f1 b1 k1 where
    ra: "random_attempts 500 rnd k boxes placed idx = Inr (f1, b1, k1)"
    by (auto simp: place_one_def split: sum.splits)
  note om1 = random_attempts_only_moved[OF ra]
  obtain f2 b2 where gf: "grid_fallback b1 placed idx = (f2, b2)"
    by (cases "grid_fallback b1 placed idx")
  then have om2: "only_moved idx b1 b2"
    using scan_y_only_moved by (simp add: grid_fallback_def)
  from assms ra gf have "placed' = placed @ [idx]" "boxes' = b1 \<or> boxes' = b2"
    by (auto simp: place_one_def split: if_splits)
  with om1 om2 show ?thesis using only_moved_trans by blast
qed

lemma place_one_fatal:
  assumes po: "place_one rnd k boxes placed idx = Inl RuntimeError" and len: "idx < length boxes"
  shows "grid_blocked boxes placed idx \<and> placed \<noteq> [] \<and>
         width (boxes ! idx) \<le> IMAGE_WIDTH \<and> height (boxes ! idx) \<le> IMAGE_HEIGHT"
proof -
  from po obtain f1 b1 k1 where
    ra: "random_attempts 500 rnd k boxes placed idx = Inr (f1, b1, k1)"
    using random_attempts_error[of 500 rnd k boxes placed idx]
    by (cases "random_attempts 500 rnd k boxes placed idx") (auto simp: place_one_def)
  have "random_attempts (Suc 499) rnd k boxes placed idx = Inr (f1, b1, k1)"
    using ra by simp
  from random_attempts_fits[OF this]
  have fits: "width (boxes ! idx) \<le> IMAGE_WIDTH \<and> height (boxes ! idx) \<le> IMAGE_HEIGHT" .
  have om: "only_moved idx boxes b1" using random_attempts_result[OF ra len] by simp
  have len1: "idx < length b1" using om len by (simp add: only_moved_def)
  note d = only_moved_dims[OF om len]
  obtain f2 b2 where gf: "grid_fallback b1 placed idx = (f2, b2)"
    by (cases "grid_fallback b1 placed idx")
  from po ra gf have nf: "\<not> f1" "\<not> f2"
    by (auto simp: place_one_def split: if_splits)
  from gf nf have "scan_y b1 placed idx (range_step (IMAGE_HEIGHT - height (b1 ! idx) + 1) 5)
      = (False, b2)" by (simp add: grid_fallback_def)
  from scan_y_blocked[OF this len1] have gb: "grid_blocked boxes placed idx"
    using d set_position_absorb[OF om] by (simp add: grid_blocked_def)
  have "0 \<in> set (range_step (IMAGE_HEIGHT - height (boxes ! idx) + 1) 5)"
       "0 \<in> set (range_step (IMAGE_WIDTH - width (boxes ! idx) + 1) 5)"
    using fits by (simp_all add: range_step_zero)
  with gb have "\<not> no_overlap_with_placed (set_position boxes idx 0 0) placed idx"
    unfolding grid_blocked_def by blast
  then have "placed \<noteq> []" by (auto simp: no_overlap_with_placed_def)
  with gb fits show ?thesis by simp
qed

lemma place_all_prefix:
  "place_all rnd k boxes placed order = Inr (boxes', placed', k') \<Longrightarrow>
     placed' = placed @ order \<and> length boxes' = length boxes"
proof (induction order arbitrary: k boxes placed)
  case Nil
  then show ?case by simp
next
  case (Cons idx order)
  from Cons.prems obtain b1 p1 k1 where
    po: "place_one rnd k boxes placed idx = Inr (b1, p1, k1)" and
    rest: "place_all rnd k1 b1 p1 order = Inr (boxes', placed', k')"
    by (auto split: sum.splits)
  from place_one_only_moved[OF po] Cons.IH[OF rest] show ?case
    by (simp add: only_moved_def)
qed

lemma place_all_fatal:
  "place_all rnd k boxes placed order = Inl RuntimeError \<Longrightarrow>
     \<exists>pre idx post b1 p1 k1. order = pre @ idx # post \<and>
        place_all rnd k boxes placed pre = Inr (b1, p1, k1) \<and>
        place_one rnd k1 b1 p1 idx = Inl RuntimeError"
proof (induction order arbitrary: k boxes placed)
  case Nil
  then show ?case by simp
next
  case (Cons idx order)
  show ?case
  proof (cases "place_one rnd k boxes placed idx")
    case (Inl e)
    with Cons.prems have "place_one rnd k boxes placed idx = Inl RuntimeError" by simp
    then have "idx # order = [] @ idx # order \<and>
        place_all rnd k boxes placed [] = Inr (boxes, placed, k) \<and>
        place_one rnd k boxes placed idx = Inl RuntimeError" by simp
    then show ?thesis by blast
  next
    case (Inr r)
    obtain b1 p1 k1 where r: "r = (b1, p1, k1)" by (cases r)
    with Inr Cons.prems have "place_all rnd k1 b1 p1 order = Inl RuntimeError" by simp
    from Cons.IH[OF this] obtain pre i post b2 p2 k2 where
      o: "order = pre @ i # post" and
      pa: "place_all rnd k1 b1 p1 pre = Inr (b2, p2, k2)" and
      po: "place_one rnd k2 b2 p2 i = Inl RuntimeError" by blast
    have "idx # order = (idx # pre) @ i # post \<and>
        place_all rnd k boxes placed (idx # pre) = Inr (b2, p2, k2) \<and>
        place_one rnd k2 b2 p2 i = Inl RuntimeError"
      using o pa po Inr r by simp
    then show ?thesis by blast
  qed
qed

lemma sort_by_color_error: "sort_by_color bs = Inl e \<Longrightarrow> e = ValueError"
  by (auto simp: sort_by_color_def split: if_splits)



lemma scan_x_all_blocked:
  assumes "\<forall>x\<in>set xs. \<not> no_overlap_with_placed (set_position boxes idx x y) placed idx"
  shows "\<exists>b'. scan_x boxes placed idx y xs = (False, b')"
  using assms
proof (induction xs arbitrary: boxes)
  case Nil
  then show ?case by simp
next
  case (Cons x xs)
  let ?b = "set_position boxes idx x y"
  have ab: "\<And>x'. set_position ?b idx x' y = set_position boxes idx x' y"
    by (rule set_position_absorb) (rule only_moved_set_position)
  have "\<forall>x'\<in>set xs. \<not> no_overlap_with_placed (set_position ?b idx x' y) placed idx"
    using Cons.prems ab by simp
  from Cons.IH[OF this] Cons.prems show ?case by (simp add: Let_def)
qed

lemma scan_y_all_blocked:
  assumes "\<forall>y\<in>set ys. \<forall>x\<in>set (range_step (IMAGE_WIDTH - width (boxes ! idx) + 1) 5).
             \<not> no_overlap_with_placed (set_position boxes idx x y) placed idx"
    and "idx < length boxes"
  shows "\<exists>b'. scan_y boxes placed idx ys = (False, b')"
  using assms
proof (induction ys arbitrary: boxes)
  case Nil
  then show ?case by simp
next
  case (Cons y ys)
  let ?xs = "range_step (IMAGE_WIDTH - width (boxes ! idx) + 1) 5"
  from Cons.prems(1) have "\<forall>x\<in>set ?xs. \<not> no_overlap_with_placed (set_position boxes idx x y) placed idx"
    by simp
  from scan_x_all_blocked[OF this] obtain b1 where sx: "scan_x boxes placed idx y ?xs = (False, b1)"
    by blast
  note om = scan_x_only_moved[OF sx]
  have len: "idx < length b1" using om Cons.prems(2) by (simp add: only_moved_def)
  have w: "width (b1 ! idx) = width (boxes ! idx)"
    using only_moved_dims[OF om Cons.prems(2)] by simp
  have "\<forall>y'\<in>set ys. \<forall>x\<in>set (range_step (IMAGE_WIDTH - width (b1 ! idx) + 1) 5).
             \<not> no_overlap_with_placed (set_position b1 idx x y') placed idx"
    using Cons.prems(1) w set_position_absorb[OF om] by simp
  from Cons.IH[OF this len] sx show ?case by simp
qed

lemma random_attempts_all_blocked:
  assumes "\<And>x y. 0 \<le> x \<Longrightarrow> x \<le> IMAGE_WIDTH - width (boxes ! idx) \<Longrightarrow>
                  0 \<le> y \<Longrightarrow> y \<le> IMAGE_HEIGHT - height (boxes ! idx) \<Longrightarrow>
             \<not> no_overlap_with_placed (set_position boxes idx x y) placed idx"
    and "idx < length boxes"
    and "width (boxes ! idx) \<le> IMAGE_WIDTH" and "height (boxes ! idx) \<le> IMAGE_HEIGHT"
  shows "\<exists>b'. random_attempts n rnd k boxes placed idx = Inr (False, b', k + 2 * n)"
  using assms
proof (induction n arbitrary: k boxes)
  case 0
  then show ?case by simp
next
  case (Suc n)
  obtain x where x: "randint rnd k 0 (IMAGE_WIDTH - width (boxes ! idx)) = Inr x"
    using Suc.prems(3) by (simp add: randint_def)
  obtain y where y: "randint rnd (k + 1) 0 (IMAGE_HEIGHT - height (boxes ! idx)) = Inr y"
    using Suc.prems(4) by (simp add: randint_def)
  let ?b = "set_position boxes idx x y"
  have blocked: "\<not> no_overlap_with_placed ?b placed idx"
    using Suc.prems(1) randint_range[OF x] randint_range[OF y] by simp
  have om: "only_moved idx boxes ?b" by (rule only_moved_set_position)
  have len: "idx < length ?b" using Suc.prems(2) by (simp add: set_position_def)
  note d = only_moved_dims[OF om Suc.prems(2)]
  have "\<exists>b'. random_attempts n rnd (k + 2) ?b placed idx = Inr (False, b', k + 2 + 2 * n)"
  proof (rule Suc.IH)
    fix x' y' assume "0 \<le> x'" "x' \<le> IMAGE_WIDTH - width (?b ! idx)"
      "0 \<le> y'" "y' \<le> IMAGE_HEIGHT - height (?b ! idx)"
    then show "\<not> no_overlap_with_placed (set_position ?b idx x' y') placed idx"
      using Suc.prems(1)[of x' y'] d set_position_absorb[OF om] by simp
  next
    show "idx < length ?b" by (rule len)
    show "width (?b ! idx) \<le> IMAGE_WIDTH" using d Suc.prems(3) by simp
    show "height (?b ! idx) \<le> IMAGE_HEIGHT" using d Suc.prems(4) by simp
  qed
  with x y blocked show ?case by (simp add: Let_def)
qed

lemma place_one_all_blocked:
  assumes blocked: "\<And>x y. 0 \<le> x \<Longrightarrow> x \<le> IMAGE_WIDTH - width (boxes ! idx) \<Longrightarrow>
                  0 \<le> y \<Longrightarrow> y \<le> IMAGE_HEIGHT - height (boxes ! idx) \<Longrightarrow>
             \<not> no_overlap_with_placed (set_position boxes idx x y) placed idx"
    and len: "idx < length boxes"
    and fits: "width (boxes ! idx) \<le> IMAGE_WIDTH" "height (boxes ! idx) \<le> IMAGE_HEIGHT"
  shows "place_one rnd k boxes placed idx = Inl RuntimeError"
proof -
  from random_attempts_all_blocked[OF blocked len fits, of 500 rnd k]
  obtain b1 where ra: "random_attempts 500 rnd k boxes placed idx = Inr (False, b1, k + 2 * 500)"
    by blast
  note om = random_attempts_only_moved[OF ra]
  have len1: "idx < length b1" using om len by (simp add: only_moved_def)
  note d = only_moved_dims[OF om len]
  have "\<forall>y\<in>set (range_step (IMAGE_HEIGHT - height (b1 ! idx) + 1) 5).
        \<forall>x\<in>set (range_step (IMAGE_WIDTH - width (b1 ! idx) + 1) 5).
          \<not> no_overlap_with_placed (set_position b1 idx x y) placed idx"
  proof (intro ballI)
    fix y x assume "y \<in> set (range_step (IMAGE_HEIGHT - height (b1 ! idx) + 1) 5)"
      "x \<in> set (range_step (IMAGE_WIDTH - width (b1 ! idx) + 1) 5)"
    then have "0 \<le> x" "x \<le> IMAGE_WIDTH - width (boxes ! idx)"
      "0 \<le> y" "y \<le> IMAGE_HEIGHT - height (boxes ! idx)"
      using range_step_bounds[of y "IMAGE_HEIGHT - height (boxes ! idx) + 1"]
        range_step_bounds[of x "IMAGE_WIDTH - width (boxes ! idx) + 1"] d by auto
    from blocked[OF this] show "\<not> no_overlap_with_placed (set_position b1 idx x y) placed idx"
      using set_position_absorb[OF om] by simp
  qed
  from scan_y_all_blocked[OF this len1] obtain b2 where
    "grid_fallback b1 placed idx = (False, b2)" by (auto simp: grid_fallback_def)
  with ra show ?thesis by (simp add: place_one_def)
qed

lemma stuck_first:
  "place_one stuck_draws 0 stuck_boxes [] 0 =
     Inr ([mk_box ''red'' 400 600 200 0, mk_box ''blue'' 399 600 0 0], [0], 2)"
  by code_simp

lemma stuck_order: "placement_order stuck_boxes = [0, Suc 0]"
  by code_simp

lemma stuck_second:
  "place_one stuck_draws 2 [mk_box ''red'' 400 600 200 0, mk_box ''blue'' 399 600 0 0] [0] (Suc 0) =
     Inl RuntimeError"
  by (rule place_one_all_blocked)
     (simp_all add: no_overlap_with_placed_def set_position_def boxes_overlap_iff mk_box_def
        IMAGE_WIDTH_def IMAGE_HEIGHT_def)

lemma stuck_run: "arrange_boxes_without_overlap stuck_draws stuck_boxes = Inl RuntimeError"
  by (simp add: arrange_boxes_without_overlap_def stuck_order stuck_first stuck_second)


text \<open>
  C4. The claim is that the fatal error implies that no assignment of non-overlapping
  positions within the canvas exists. The placer is greedy: it never moves a rectangle it
  has placed. With the first draw putting the 400x600 rectangle at \<open>x = 200\<close>, the
  399x600 rectangle fits nowhere and the placer raises, although the two fit side by side.
\<close>

theorem placer_fatal_although_feasible:
  "arrange_boxes_without_overlap stuck_draws stuck_boxes = Inl RuntimeError \<and>
   map attrs side_by_side = map attrs stuck_boxes \<and>
   in_canvas (side_by_side ! 0) \<and> in_canvas (side_by_side ! 1) \<and>
   \<not> boxes_overlap (side_by_side ! 0) (side_by_side ! 1)"
  using stuck_run
  by (simp add: side_by_side_def stuck_boxes_def mk_box_def attrs_def in_canvas_def
      boxes_overlap_iff IMAGE_WIDTH_def IMAGE_HEIGHT_def)


text \<open>
  C4, as amended. When the placer raises its fatal error, it had placed a non-empty
  prefix of the rectangles in descending order of area, and the next rectangle, which is
  no larger than the canvas, overlaps one of those at every position of the step-5 grid,
  with the placed rectangles where the earlier steps left them.
\<close>

theorem placer_fatal_means_grid_blocked:
  assumes "arrange_boxes_without_overlap rnd boxes = Inl RuntimeError"
  shows "\<exists>pre idx post boxes1 k1.
           placement_order boxes = pre @ idx # post \<and> pre \<noteq> [] \<and>
           place_all rnd 0 boxes [] pre = Inr (boxes1, pre, k1) \<and>
           width (boxes1 ! idx) \<le> IMAGE_WIDTH \<and> height (boxes1 ! idx) \<le> IMAGE_HEIGHT \<and>
           grid_blocked boxes1 pre idx"
proof -
  have "place_all rnd 0 boxes [] (placement_order boxes) = Inl RuntimeError"
  proof (cases "place_all rnd 0 boxes [] (placement_order boxes)")
    case (Inl e)
    with assms show ?thesis by (simp add: arrange_boxes_without_overlap_def)
  next
    case (Inr r)
    obtain bc pl k where "r = (bc, pl, k)" by (cases r)
    with Inr assms have "sort_by_color bc = Inl RuntimeError"
      by (simp add: arrange_boxes_without_overlap_def)
    from sort_by_color_error[OF this] show ?thesis by simp
  qed
  from place_all_fatal[OF this] obtain pre idx post b1 p1 k1 where
    o: "placement_order boxes = pre @ idx # post" and
    pa: "place_all rnd 0 boxes [] pre = Inr (b1, p1, k1)" and
    po: "place_one rnd k1 b1 p1 idx = Inl RuntimeError" by blast
  from place_all_prefix[OF pa] have p1: "p1 = pre" and l1: "length b1 = length boxes" by simp_all
  have "idx \<in> set (placement_order boxes)" using o by simp
  then have "idx < length b1" using l1 by (simp add: placement_order_perm)
  from place_one_fatal[OF po this] o pa p1 show ?thesis by blast
qed

theorem placer_fatal_means_grid_blocked_witness:
  "arrange_boxes_without_overlap stuck_draws stuck_boxes = Inl RuntimeError \<and>
   (\<exists>pre idx post boxes1 k1.
           placement_order stuck_boxes = pre @ idx # post \<and> pre \<noteq> [] \<and>
           place_all stuck_draws 0 stuck_boxes [] pre = Inr (boxes1, pre, k1) \<and>
           width (boxes1 ! idx) \<le> IMAGE_WIDTH \<and> height (boxes1 ! idx) \<le> IMAGE_HEIGHT \<and>
           grid_blocked boxes1 pre idx)"
  using placer_fatal_means_grid_blocked[OF stuck_run] stuck_run by simp

section \<open>Properties of the extractor\<close>

subsection \<open>The pixel loop\<close>


lemma tracked_track_initial:
  assumes "x < img_width img" "y < img_height img"
  shows "tracked img (track (initial_extents img) (int x) (int y))"
  using assms by (simp add: tracked_def track_def initial_extents_def Let_def)

lemma tracked_track:
  assumes "tracked img d" "x < img_width img" "y < img_height img"
  shows "tracked img (track d (int x) (int y))"
  using assms by (auto simp: tracked_def track_def Let_def)

lemma scan_pixel_inv:
  assumes inv: "scan_inv img S bounds" and x: "x < img_width img" and y: "y < img_height img"
  shows "scan_inv img (insert (x, y) S) (scan_pixel img y x bounds)"
proof (cases "COLOR_LOOKUP (pixels img x y)")
  case None
  then show ?thesis using inv by (simp add: scan_inv_def scan_pixel_def)
next
  case (Some c)
  have new: "tracked img (track (bounds c) (int x) (int y))"
  proof (cases "\<exists>(x, y)\<in>S. COLOR_LOOKUP (pixels img x y) = Some c")
    case True
    with inv have "tracked img (bounds c)" unfolding scan_inv_def by meson
    then show ?thesis using x y by (rule tracked_track)
  next
    case False
    with inv have "bounds c = initial_extents img" unfolding scan_inv_def by meson
    then show ?thesis using tracked_track_initial[OF x y] by simp
  qed
  show ?thesis
    unfolding scan_inv_def
  proof (intro allI)
    fix name
    show "if \<exists>(x', y')\<in>insert (x, y) S. COLOR_LOOKUP (pixels img x' y') = Some name
          then tracked img (scan_pixel img y x bounds name)
          else scan_pixel img y x bounds name = initial_extents img"
    proof (cases "name = c")
      case True
      then show ?thesis using Some new by (simp add: scan_pixel_def)
    next
      case False
      then have "scan_pixel img y x bounds name = bounds name"
        using Some by (simp add: scan_pixel_def)
      moreover have "(\<exists>(x', y')\<in>insert (x, y) S. COLOR_LOOKUP (pixels img x' y') = Some name)
            = (\<exists>(x', y')\<in>S. COLOR_LOOKUP (pixels img x' y') = Some name)"
        using False Some by auto
      ultimately show ?thesis using inv unfolding scan_inv_def by presburger
    qed
  qed
qed

lemma scan_row_inv:
  assumes "scan_inv img S bounds" and "\<forall>x\<in>set xs. x < img_width img" and "y < img_height img"
  shows "scan_inv img (S \<union> (\<lambda>x. (x, y)) ` set xs) (fold (scan_pixel img y) xs bounds)"
  using assms
proof (induction xs arbitrary: S bounds)
  case Nil
  then show ?case by simp
next
  case (Cons x xs)
  have "scan_inv img (insert (x, y) S) (scan_pixel img y x bounds)"
    using Cons.prems by (intro scan_pixel_inv) simp_all
  from Cons.IH[OF this] Cons.prems(2,3) show ?case by simp
qed

lemma scan_rows_inv:
  assumes "scan_inv img S bounds" and "\<forall>y\<in>set ys. y < img_height img"
  shows "scan_inv img (S \<union> {0..<img_width img} \<times> set ys)
           (fold (\<lambda>y bounds. fold (scan_pixel img y) [0..<img_width img] bounds) ys bounds)"
  using assms
proof (induction ys arbitrary: S bounds)
  case Nil
  then show ?case by simp
next
  case (Cons y ys)
  let ?b = "fold (scan_pixel img y) [0..<img_width img] bounds"
  let ?S = "S \<union> (\<lambda>x. (x, y)) ` set [0..<img_width img]"
  have "scan_inv img ?S ?b"
    using Cons.prems by (intro scan_row_inv) simp_all
  from Cons.IH[OF this] Cons.prems(2)
  have "scan_inv img (?S \<union> {0..<img_width img} \<times> set ys)
          (fold (\<lambda>y bounds. fold (scan_pixel img y) [0..<img_width img] bounds) ys ?b)"
    by simp
  moreover have "?S \<union> {0..<img_width img} \<times> set ys
      = S \<union> {0..<img_width img} \<times> set (y # ys)" by auto
  ultimately show ?case by simp
qed

lemma scan_image_inv:
  "scan_inv img ({0..<img_width img} \<times> {0..<img_height img}) (scan_image img)"
proof -
  have "scan_inv img {} (\<lambda>name. initial_extents img)" by (simp add: scan_inv_def)
  from scan_rows_inv[OF this, of "[0..<img_height img]"] show ?thesis
    by (simp add: scan_image_def)
qed

lemma COLOR_LOOKUP_iff:
  "(COLOR_LOOKUP p = Some name) = ((name, p) \<in> set COLORS)"
  by (auto simp: COLOR_LOOKUP_def COLORS_def split: if_splits)

lemma has_pixel_of_iff:
  "has_pixel_of img p = (\<exists>(x, y)\<in>{0..<img_width img} \<times> {0..<img_height img}. pixels img x y = p)"
  by (auto simp: has_pixel_of_def list_ex_iff)

lemma scan_image_entry:
  assumes "(name, p) \<in> set COLORS"
  shows "if has_pixel_of img p then tracked img (scan_image img name)
         else scan_image img name = initial_extents img"
proof -
  have "(\<exists>(x, y)\<in>{0..<img_width img} \<times> {0..<img_height img}.
            COLOR_LOOKUP (pixels img x y) = Some name) = has_pixel_of img p"
  proof -
    have "\<And>q. ((name, q) \<in> set COLORS) = (q = p)"
      using assms by (auto simp: COLORS_def)
    then show ?thesis by (simp add: has_pixel_of_iff COLOR_LOOKUP_iff)
  qed
  with scan_image_inv[of img] show ?thesis unfolding scan_inv_def by metis
qed

subsection \<open>The rectangles and the warnings\<close>


lemma collect_boxes_warnings:
  "collect_boxes img bounds cs = (ws, bs) \<Longrightarrow>
     set ws = {name \<in> fst ` set cs. max_x (bounds name) = -1}"
proof (induction cs arbitrary: ws bs)
  case Nil
  then show ?case by simp
next
  case (Cons c cs)
  obtain name rgb where c: "c = (name, rgb)" by (cases c)
  obtain ws' bs' where r: "collect_boxes img bounds cs = (ws', bs')"
    by (cases "collect_boxes img bounds cs")
  note ih = Cons.IH[OF r]
  show ?case
  proof (cases "max_x (bounds name) = -1")
    case True
    with Cons.prems c r have "ws = name # ws'" by (simp add: Let_def)
    with ih True c show ?thesis by auto
  next
    case False
    with Cons.prems c r have "ws = ws'" by (simp add: Let_def)
    with ih False c show ?thesis by auto
  qed
qed

lemma collect_boxes_names:
  "collect_boxes img bounds cs = (ws, bs) \<Longrightarrow>
     (\<lambda>b. (color_name b, color b)) ` set bs =
       {(name, rgb). (name, rgb) \<in> set cs \<and> max_x (bounds name) \<noteq> -1}"
proof (induction cs arbitrary: ws bs)
  case Nil
  then show ?case by simp
next
  case (Cons c cs)
  obtain name rgb where c: "c = (name, rgb)" by (cases c)
  obtain ws' bs' where r: "collect_boxes img bounds cs = (ws', bs')"
    by (cases "collect_boxes img bounds cs")
  note ih = Cons.IH[OF r]
  show ?case
  proof (cases "max_x (bounds name) = -1")
    case True
    with Cons.prems c r have "bs = bs'" by (simp add: Let_def)
    with ih True c show ?thesis by auto
  next
    case False
    with Cons.prems c r obtain b where "bs = b # bs'" "color_name b = name" "color b = rgb"
      by (auto simp: Let_def)
    with ih False c show ?thesis by auto
  qed
qed

lemma collect_boxes_positive:
  assumes "collect_boxes img bounds cs = (ws, bs)"
    and "\<forall>(name, rgb)\<in>set cs. max_x (bounds name) \<noteq> -1 \<longrightarrow> tracked img (bounds name)"
  shows "\<forall>b\<in>set bs. 1 \<le> width b \<and> 1 \<le> height b"
  using assms
proof (induction cs arbitrary: ws bs)
  case Nil
  then show ?case by simp
next
  case (Cons c cs)
  obtain name rgb where c: "c = (name, rgb)" by (cases c)
  obtain ws' bs' where r: "collect_boxes img bounds cs = (ws', bs')"
    by (cases "collect_boxes img bounds cs")
  have ih: "\<forall>b\<in>set bs'. 1 \<le> width b \<and> 1 \<le> height b"
    using Cons.IH[OF r] Cons.prems(2) by simp
  show ?case
  proof (cases "max_x (bounds name) = -1")
    case True
    with Cons.prems(1) c r have "bs = bs'" by (simp add: Let_def)
    with ih show ?thesis by simp
  next
    case False
    then have t: "tracked img (bounds name)" using Cons.prems(2) c by simp
    from False Cons.prems(1) c r obtain b where b: "bs = b # bs'"
      "width b = min (max_x (bounds name) + OUTLINE_WIDTH) (int (img_width img) - 1)
                  - max (min_x (bounds name) - OUTLINE_WIDTH) 0 + 1"
      "height b = min (max_y (bounds name) + OUTLINE_WIDTH) (int (img_height img) - 1)
                  - max (min_y (bounds name) - OUTLINE_WIDTH) 0 + 1"
      by (auto simp: Let_def)
    have "1 \<le> width b \<and> 1 \<le> height b"
      using t b(2,3) by (simp add: tracked_def OUTLINE_WIDTH_def)
    with ih b(1) show ?thesis by simp
  qed
qed

lemma scan_image_sentinel:
  assumes "(name, rgb) \<in> set COLORS"
  shows "(max_x (scan_image img name) = -1) = (\<not> has_pixel_of img rgb)"
    and "max_x (scan_image img name) \<noteq> -1 \<longrightarrow> tracked img (scan_image img name)"
  using scan_image_entry[OF assms, of img]
  by (auto simp: tracked_def initial_extents_def split: if_splits)

lemma sample_image_run:
  "extract_boxes sample_image =
     ([''green'', ''orange'', ''yellow''],
      Inr [\<lparr>color_name = ''red'', color = (255, 0, 0), width = 4, height = 3\<rparr>,
           \<lparr>color_name = ''blue'', color = (0, 0, 255), width = 3, height = 3\<rparr>])"
  by code_simp

lemma blank_image_run:
  "extract_boxes blank_image =
     ([''red'', ''green'', ''blue'', ''orange'', ''yellow''], Inl ValueError)"
  by code_simp

lemma sample_image_no_green: "\<not> has_pixel_of sample_image (0, 255, 0)"
  by code_simp

lemma sample_image_red: "has_pixel_of sample_image (255, 0, 0)"
  by code_simp

text \<open>
  C9. A palette color without any exactly matching pixel is reported in the warnings and
  has no rectangle in the output; the extractor raises if and only if no palette color
  has a matching pixel, so a missing color alone is not an error.
\<close>

theorem extract_boxes_missing_colors:
  assumes "extract_boxes img = (warnings, res)"
  shows "(\<forall>(name, rgb)\<in>set COLORS. \<not> has_pixel_of img rgb \<longrightarrow>
            name \<in> set warnings \<and> (\<forall>boxes. res = Inr boxes \<longrightarrow> name \<notin> color_name ` set boxes))
       \<and> ((\<exists>e. res = Inl e) \<longleftrightarrow> (\<forall>(name, rgb)\<in>set COLORS. \<not> has_pixel_of img rgb))"
proof -
  obtain ws bs where cb: "collect_boxes img (scan_image img) COLORS = (ws, bs)"
    by (cases "collect_boxes img (scan_image img) COLORS")
  with assms have w: "warnings = ws" and res: "res = (if bs = [] then Inl ValueError else Inr bs)"
    by (simp_all add: extract_boxes_def)
  note W = collect_boxes_warnings[OF cb]
  note N = collect_boxes_names[OF cb]
  have names: "\<And>b. b \<in> set bs \<Longrightarrow>
     (color_name b, color b) \<in> set COLORS \<and> has_pixel_of img (color b)"
  proof -
    fix b assume "b \<in> set bs"
    then have "(color_name b, color b) \<in> (\<lambda>b. (color_name b, color b)) ` set bs" by blast
    with N have "(color_name b, color b) \<in> set COLORS"
      "max_x (scan_image img (color_name b)) \<noteq> -1" by auto
    then show "(color_name b, color b) \<in> set COLORS \<and> has_pixel_of img (color b)"
      using scan_image_sentinel(1) by blast
  qed
  have uniq: "\<And>name p q. (name, p) \<in> set COLORS \<Longrightarrow> (name, q) \<in> set COLORS \<Longrightarrow> p = q"
    by (auto simp: COLORS_def)
  have part1: "\<forall>(name, rgb)\<in>set COLORS. \<not> has_pixel_of img rgb \<longrightarrow>
            name \<in> set warnings \<and> (\<forall>boxes. res = Inr boxes \<longrightarrow> name \<notin> color_name ` set boxes)"
  proof (intro ballI, clarify)
    fix name rgb assume c: "(name, rgb) \<in> set COLORS" and no: "\<not> has_pixel_of img rgb"
    have "max_x (scan_image img name) = -1" using scan_image_sentinel(1)[OF c] no by simp
    moreover have "name \<in> fst ` set COLORS" using c by force
    ultimately have a: "name \<in> set warnings" using W w by simp
    have "name \<notin> color_name ` set bs"
    proof
      assume "name \<in> color_name ` set bs"
      then obtain b where b: "b \<in> set bs" "color_name b = name" by auto
      from names[OF b(1)] b(2) have "(name, color b) \<in> set COLORS" "has_pixel_of img (color b)"
        by simp_all
      moreover from this(1) have "rgb = color b" by (rule uniq[OF c])
      ultimately show False using no by simp
    qed
    with a res show "name \<in> set warnings \<and>
       (\<forall>boxes. res = Inr boxes \<longrightarrow> name \<notin> color_name ` set boxes)"
      by (auto split: if_splits)
  qed
  have "(bs = []) = (\<forall>(name, rgb)\<in>set COLORS. \<not> has_pixel_of img rgb)"
  proof
    assume e: "bs = []"
    show "\<forall>(name, rgb)\<in>set COLORS. \<not> has_pixel_of img rgb"
    proof (intro ballI, clarify)
      fix name rgb assume c: "(name, rgb) \<in> set COLORS" and h: "has_pixel_of img rgb"
      then have "max_x (scan_image img name) \<noteq> -1" using scan_image_sentinel(1)[OF c] by simp
      with c have "(name, rgb) \<in> (\<lambda>b. (color_name b, color b)) ` set bs"
        unfolding N by simp
      with e show False by simp
    qed
  next
    assume a: "\<forall>(name, rgb)\<in>set COLORS. \<not> has_pixel_of img rgb"
    show "bs = []"
    proof (cases bs)
      case Nil then show ?thesis .
    next
      case (Cons b rest)
      then have "b \<in> set bs" by simp
      from names[OF this] a show ?thesis by auto
    qed
  qed
  then have part2: "(\<exists>e. res = Inl e) \<longleftrightarrow> (\<forall>(name, rgb)\<in>set COLORS. \<not> has_pixel_of img rgb)"
    using res by auto
  from part1 part2 show ?thesis by blast
qed


theorem extract_boxes_missing_colors_witness:
  "extract_boxes blank_image =
     ([''red'', ''green'', ''blue'', ''orange'', ''yellow''], Inl ValueError) \<and>
   \<not> has_pixel_of blank_image (255, 0, 0) \<and>
   \<not> has_pixel_of sample_image (0, 255, 0) \<and>
   ''green'' \<in> set (fst (extract_boxes sample_image)) \<and>
   (\<exists>boxes. snd (extract_boxes sample_image) = Inr boxes \<and> ''green'' \<notin> color_name ` set boxes)"
proof -
  have "\<forall>(name, rgb)\<in>set COLORS. \<not> has_pixel_of blank_image rgb"
    using extract_boxes_missing_colors[OF blank_image_run] by blast
  then have a: "\<not> has_pixel_of blank_image (255, 0, 0)" by (simp add: COLORS_def)
  have g: "(''green'', (0, 255, 0)) \<in> set COLORS" by (simp add: COLORS_def)
  have "\<forall>(name, rgb)\<in>set COLORS. \<not> has_pixel_of sample_image rgb \<longrightarrow>
          name \<in> set [''green'', ''orange'', ''yellow''] \<and>
          (\<forall>boxes. Inr [\<lparr>color_name = ''red'', color = (255, 0, 0), width = 4, height = 3\<rparr>,
             \<lparr>color_name = ''blue'', color = (0, 0, 255), width = 3, height = 3\<rparr>] = Inr boxes
             \<longrightarrow> name \<notin> color_name ` set boxes)"
    using extract_boxes_missing_colors[OF sample_image_run] by blast
  with g sample_image_no_green have
    "''green'' \<in> set [''green'', ''orange'', ''yellow''] \<and>
     ''green'' \<notin> color_name ` set [\<lparr>color_name = ''red'', color = (255, 0, 0), width = 4, height = 3\<rparr>,
             \<lparr>color_name = ''blue'', color = (0, 0, 255), width = 3, height = 3\<rparr>]"
    by blast
  with a sample_image_no_green blank_image_run show ?thesis
    by (simp add: sample_image_run)
qed

text \<open>
  C10. For a palette color with at least one matching pixel the extractor returns
  rectangles, one of them of that color, and every returned rectangle has width and
  height at least 1: expanding the tracked extents by the outline margin and clamping
  them to the image keeps \<open>min_x \<le> max_x\<close> and \<open>min_y \<le> max_y\<close>.
\<close>

theorem extract_boxes_positive_size:
  assumes "(name, rgb) \<in> set COLORS" and "has_pixel_of img rgb"
  shows "\<exists>boxes. snd (extract_boxes img) = Inr boxes \<and>
           (\<exists>b\<in>set boxes. color_name b = name \<and> color b = rgb) \<and>
           (\<forall>b\<in>set boxes. 1 \<le> width b \<and> 1 \<le> height b)"
proof -
  obtain ws bs where cb: "collect_boxes img (scan_image img) COLORS = (ws, bs)"
    by (cases "collect_boxes img (scan_image img) COLORS")
  have "max_x (scan_image img name) \<noteq> -1"
    using scan_image_sentinel(1)[OF assms(1)] assms(2) by simp
  with assms(1) have "(name, rgb) \<in> (\<lambda>b. (color_name b, color b)) ` set bs"
    unfolding collect_boxes_names[OF cb] by simp
  then have ex: "\<exists>b\<in>set bs. color_name b = name \<and> color b = rgb" by auto
  then have ne: "bs \<noteq> []" by auto
  have pos: "\<forall>b\<in>set bs. 1 \<le> width b \<and> 1 \<le> height b"
    by (rule collect_boxes_positive[OF cb]) (use scan_image_sentinel(2) in blast)
  from cb ne have "snd (extract_boxes img) = Inr bs" by (simp add: extract_boxes_def)
  with ex pos show ?thesis by blast
qed


theorem extract_boxes_positive_size_witness:
  "(''red'', (255, 0, 0)) \<in> set COLORS \<and> has_pixel_of sample_image (255, 0, 0) \<and>
   (\<exists>boxes. snd (extract_boxes sample_image) = Inr boxes \<and>
           (\<exists>b\<in>set boxes. color_name b = ''red'' \<and> color b = (255, 0, 0)) \<and>
           (\<forall>b\<in>set boxes. 1 \<le> width b \<and> 1 \<le> height b))"
proof -
  have c: "(''red'', (255, 0, 0)) \<in> set COLORS" by (simp add: COLORS_def)
  from extract_boxes_positive_size[OF c sample_image_red] c sample_image_red
  show ?thesis by blast
qed

section \<open>The occupied-pixel count of the detector\<close>


lemma sum_list_upto: "sum_list (map f [a..b]) = sum f {a..b}"
  by (simp add: sum_list_distinct_conv_sum_set)

lemma count_set_card:
  "count_set m = int (card {(px, py). px \<in> {0..int (mask_width m) - 1} \<and>
       py \<in> {0..int (mask_height m) - 1} \<and> mask_at m px py = 255})"
proof -
  let ?A = "{0..int (mask_height m) - 1}" and ?B = "{0..int (mask_width m) - 1}"
  have "count_set m = (\<Sum>py\<in>?A. \<Sum>px\<in>?B. if mask_at m px py = 255 then 1 else 0)"
    by (simp add: count_set_def sum_list_upto)
  also have "\<dots> = (\<Sum>(py, px)\<in>?A \<times> ?B. if mask_at m px py = 255 then 1 else 0)"
    by (simp add: sum.cartesian_product)
  also have "\<dots> = (\<Sum>z\<in>{z \<in> ?A \<times> ?B. mask_at m (snd z) (fst z) = 255}. 1)"
    by (subst sum.inter_filter) (auto simp: case_prod_unfold)
  also have "\<dots> = int (card {z \<in> ?A \<times> ?B. mask_at m (snd z) (fst z) = 255})" by simp
  also have "card {z \<in> ?A \<times> ?B. mask_at m (snd z) (fst z) = 255}
      = card ((\<lambda>(py, px). (px, py)) ` {z \<in> ?A \<times> ?B. mask_at m (snd z) (fst z) = 255})"
    by (rule card_image[symmetric]) (auto simp: inj_on_def)
  also have "(\<lambda>(py, px). (px, py)) ` {z \<in> ?A \<times> ?B. mask_at m (snd z) (fst z) = 255}
      = {(px, py). px \<in> ?B \<and> py \<in> ?A \<and> mask_at m px py = 255}"
    by force
  finally show ?thesis .
qed

lemma corner_mask:
  "snd (annotate_and_collect no_color 40 50 corner_bboxes) =
     \<lparr>mask_height = 40, mask_width = 50,
      mask_at = (\<lambda>px py. if 24 \<le> px \<and> px \<le> 49 \<and> 19 \<le> py \<and> py \<le> 39 \<and>
                             0 \<le> px \<and> px < 50 \<and> 0 \<le> py \<and> py < 40 then 255
                          else if 0 \<le> px \<and> px \<le> 25 \<and> 0 \<le> py \<and> py \<le> 20 \<and>
                             0 \<le> px \<and> px < 50 \<and> 0 \<le> py \<and> py < 40 then 255 else 0)\<rparr>"
  by (simp add: annotate_and_collect_def corner_bboxes_def cv2_rectangle_filled_def zeros_def
      cong: if_cong)

lemma corner_count: "count_set (snd (annotate_and_collect no_color 40 50 corner_bboxes)) = 1088"
proof -
  let ?M = "snd (annotate_and_collect no_color 40 50 corner_bboxes)"
  let ?A = "{0..25} \<times> {0..20} :: (int \<times> int) set"
  let ?B = "{24..49} \<times> {19..39} :: (int \<times> int) set"
  have s: "{(px, py). px \<in> {0..int (mask_width ?M) - 1} \<and> py \<in> {0..int (mask_height ?M) - 1} \<and>
             mask_at ?M px py = 255} = ?A \<union> ?B"
    unfolding corner_mask by (auto split: if_splits)
  have i: "?A \<inter> ?B = {24..25} \<times> {19..20}" by auto
  have "card ?A + card ?B = card (?A \<union> ?B) + card (?A \<inter> ?B)"
    by (rule card_Un_Int) simp_all
  then have c: "card (?A \<union> ?B) = 1088" unfolding i by (simp add: card_cartesian_product)
  show ?thesis by (simp only: count_set_card s c)
qed

lemma corner_areas:
  "map det_area (fst (annotate_and_collect no_color 40 50 corner_bboxes)) = [500, 500]"
  by (simp add: annotate_and_collect_def corner_bboxes_def)

text \<open>
  C3. The claim is that two overlapping detected rectangles give an occupied-pixel count
  strictly below the sum of their areas. The mask is filled up to the corner
  \<open>(x + w, y + h)\<close> inclusive, one column and one row beyond the rectangle whose area is
  \<open>w * h\<close>. For two 25x20 rectangles that share one pixel the count is 1088, above the
  sum 1000 of the two areas.
\<close>

theorem occupied_pixels_exceed_area_sum:
  "bboxes_overlap (corner_bboxes ! 0) (corner_bboxes ! 1) \<and>
   map det_area (fst (annotate_and_collect no_color 40 50 corner_bboxes)) = [500, 500] \<and>
   occupied_pixels (analyze_bboxes no_color 40 50 corner_bboxes) = 1088"
proof -
  have "bboxes_overlap (corner_bboxes ! 0) (corner_bboxes ! 1)"
    by (simp add: corner_bboxes_def bboxes_overlap_def)
  moreover have "occupied_pixels (analyze_bboxes no_color 40 50 corner_bboxes) = 1088"
    using corner_count
    by (simp add: analyze_bboxes_def summarize_and_label_def Let_def case_prod_unfold)
  ultimately show ?thesis using corner_areas by simp
qed

section \<open>Properties of the bin-packing optimizer\<close>

subsection \<open>Bounds and areas\<close>


lemma py_min_eq: "py_min xs = (if xs = [] then Inl ValueError else Inr (Min (set xs)))"
proof (cases xs)
  case Nil
  then show ?thesis by (simp add: py_min_def)
next
  case (Cons a rest)
  then show ?thesis using Min.set_eq_fold[of a rest] by (simp add: py_min_def)
qed

lemma py_max_eq: "py_max xs = (if xs = [] then Inl ValueError else Inr (Max (set xs)))"
proof (cases xs)
  case Nil
  then show ?thesis by (simp add: py_max_def)
next
  case (Cons a rest)
  then show ?thesis using Max.set_eq_fold[of a rest] by (simp add: py_max_def)
qed

lemma compute_bounds_eq:
  "compute_bounds ps =
     (if ps = [] then Inl ValueError
      else Inr \<lparr>b_left = max (Min (xpos ` set ps) - OUTLINE_WIDTH) 0,
                b_top = max (Min (ypos ` set ps) - OUTLINE_WIDTH) 0,
                b_right = min (Max ((\<lambda>b. xpos b + width b) ` set ps) + OUTLINE_WIDTH) IMAGE_WIDTH,
                b_bottom = min (Max ((\<lambda>b. ypos b + height b) ` set ps) + OUTLINE_WIDTH) IMAGE_HEIGHT\<rparr>)"
  by (simp add: compute_bounds_def py_min_eq py_max_eq)

lemma compute_bounds_perm:
  assumes "mset ps = mset qs"
  shows "compute_bounds ps = compute_bounds qs"
proof -
  have "set ps = set qs" using assms by (rule mset_eq_setD)
  moreover have "(ps = []) = (qs = [])" using assms by (metis mset_zero_iff)
  ultimately show ?thesis by (simp add: compute_bounds_eq)
qed

lemma used_area_perm: "mset ps = mset qs \<Longrightarrow> used_area ps = used_area qs"
  by (simp add: used_area_def compute_bounds_perm[of ps qs])

lemma finite_cells: "finite (cells b)"
  by (simp add: cells_def)

lemma card_cells: "0 < width b \<Longrightarrow> 0 < height b \<Longrightarrow> int (card (cells b)) = width b * height b"
  by (simp add: cells_def card_cartesian_product nat_mult_distrib)

lemma cells_disjoint: "\<not> boxes_overlap a b \<Longrightarrow> cells a \<inter> cells b = {}"
  by (auto simp: boxes_overlap_iff cells_def)

lemma card_cells_union:
  assumes "sorted_wrt (\<lambda>a b. \<not> boxes_overlap a b) ps"
  shows "card (\<Union>b\<in>set ps. cells b) = sum_list (map (\<lambda>b. card (cells b)) ps)"
  using assms
proof (induction ps)
  case Nil
  then show ?case by simp
next
  case (Cons p ps)
  have disj: "cells p \<inter> (\<Union>b\<in>set ps. cells b) = {}"
    using Cons.prems cells_disjoint by fastforce
  have fin: "finite (\<Union>b\<in>set ps. cells b)" by (simp add: finite_cells)
  have "card (\<Union>b\<in>set (p # ps). cells b) = card (cells p \<union> (\<Union>b\<in>set ps. cells b))" by simp
  also have "\<dots> = card (cells p) + card (\<Union>b\<in>set ps. cells b)"
    using disj fin finite_cells by (simp add: card_Un_disjoint)
  finally show ?case using Cons by simp
qed

lemma area_sum_le_region:
  assumes nov: "sorted_wrt (\<lambda>a b. \<not> boxes_overlap a b) ps"
    and pos: "\<forall>b\<in>set ps. 0 < width b \<and> 0 < height b"
    and inside: "\<forall>b\<in>set ps. L \<le> xpos b \<and> xpos b + width b \<le> R \<and>
                            T \<le> ypos b \<and> ypos b + height b \<le> B"
    and ne: "ps \<noteq> []"
  shows "sum_list (map (\<lambda>b. width b * height b) ps) \<le> (R - L) * (B - T)"
proof -
  have sub: "(\<Union>b\<in>set ps. cells b) \<subseteq> {L..<R} \<times> {T..<B}"
    using inside by (fastforce simp: cells_def)
  have "card (\<Union>b\<in>set ps. cells b) \<le> card ({L..<R} \<times> {T..<B})"
    by (rule card_mono) (simp_all add: sub)
  then have le: "sum_list (map (\<lambda>b. card (cells b)) ps) \<le> card ({L..<R} \<times> {T..<B})"
    using card_cells_union[OF nov] by simp
  obtain p where p: "p \<in> set ps" using ne by (cases ps) auto
  have LR: "L < R" and TB: "T < B" using inside pos p by fastforce+
  have region: "int (card ({L..<R} \<times> {T..<B})) = (R - L) * (B - T)"
    using LR TB by (simp add: card_cartesian_product nat_mult_distrib)
  have eq: "sum_list (map (\<lambda>b. width b * height b) ps) = int (sum_list (map (\<lambda>b. card (cells b)) ps))"
    using pos
  proof (induction ps)
    case Nil
    then show ?case by simp
  next
    case (Cons q qs)
    then show ?case using card_cells[of q] by simp
  qed
  from eq le region show ?thesis by linarith
qed

lemma used_area_lower_bound:
  assumes nov: "sorted_wrt (\<lambda>a b. \<not> boxes_overlap a b) ps"
    and pos: "\<forall>b\<in>set ps. 0 < width b \<and> 0 < height b"
    and inside: "\<forall>b\<in>set ps. 0 \<le> xpos b \<and> xpos b + width b \<le> IMAGE_WIDTH \<and>
                            0 \<le> ypos b \<and> ypos b + height b \<le> IMAGE_HEIGHT"
    and ne: "ps \<noteq> []"
  shows "\<exists>a. used_area ps = Inr a \<and> sum_list (map (\<lambda>b. width b * height b) ps) \<le> a"
proof -
  let ?L = "max (Min (xpos ` set ps) - OUTLINE_WIDTH) 0"
  let ?T = "max (Min (ypos ` set ps) - OUTLINE_WIDTH) 0"
  let ?R = "min (Max ((\<lambda>b. xpos b + width b) ` set ps) + OUTLINE_WIDTH) IMAGE_WIDTH"
  let ?B = "min (Max ((\<lambda>b. ypos b + height b) ` set ps) + OUTLINE_WIDTH) IMAGE_HEIGHT"
  have ua: "used_area ps = Inr ((?R - ?L) * (?B - ?T))"
    using ne by (simp add: used_area_def compute_bounds_eq)
  have "\<forall>b\<in>set ps. ?L \<le> xpos b \<and> xpos b + width b \<le> ?R \<and>
                     ?T \<le> ypos b \<and> ypos b + height b \<le> ?B"
  proof
    fix b assume b: "b \<in> set ps"
    have m: "Min (xpos ` set ps) \<le> xpos b" "Min (ypos ` set ps) \<le> ypos b"
      "xpos b + width b \<le> Max ((\<lambda>b. xpos b + width b) ` set ps)"
      "ypos b + height b \<le> Max ((\<lambda>b. ypos b + height b) ` set ps)"
      using b by simp_all
    from inside b have ib: "0 \<le> xpos b \<and> xpos b + width b \<le> IMAGE_WIDTH \<and>
                            0 \<le> ypos b \<and> ypos b + height b \<le> IMAGE_HEIGHT" by blast
    show "?L \<le> xpos b \<and> xpos b + width b \<le> ?R \<and> ?T \<le> ypos b \<and> ypos b + height b \<le> ?B"
      unfolding OUTLINE_WIDTH_def using m ib by linarith
  qed
  from area_sum_le_region[OF nov pos this ne] ua show ?thesis by simp
qed

subsection \<open>One bin\<close>


lemma build_placements_eq:
  "build_placements boxes rects = Inr pl \<Longrightarrow> pl = map (place_of boxes) rects"
proof (induction rects arbitrary: pl)
  case Nil
  then show ?case by simp
next
  case (Cons p rects)
  obtain b x y w h rid where p: "p = (b, x, y, w, h, rid)" by (cases p) auto
  from Cons.prems p obtain pl' where
    r: "build_placements boxes rects = Inr pl'" and
    pl: "pl = place_of boxes p # pl'"
    by (auto simp: place_of_def split: if_splits sum.splits)
  from Cons.IH[OF r] pl show ?case by simp
qed

lemma rids_perm:
  assumes "distinct rs" and "\<forall>r\<in>set rs. r < n" and "n \<le> length rs"
  shows "mset rs = mset [0..<n]"
proof -
  have sub: "set rs \<subseteq> {0..<n}" using assms(2) by auto
  have "card (set rs) = length rs" using assms(1) by (rule distinct_card)
  then have "card {0..<n} \<le> card (set rs)" using assms(3) by simp
  with sub have "set rs = {0..<n}" by (intro card_seteq) simp_all
  then have "set rs = set [0..<n]" by simp
  then show ?thesis
    using set_eq_iff_mset_eq_distinct[of rs "[0..<n]"] assms(1) distinct_upt by blast
qed

lemma map_nth_perm:
  assumes "mset rs = mset [0..<length xs]"
  shows "mset (map (\<lambda>r. f (xs ! r)) rs) = mset (map f xs)"
proof -
  have "mset (map (\<lambda>r. f (xs ! r)) rs) = image_mset (\<lambda>r. f (xs ! r)) (mset rs)" by simp
  also have "\<dots> = image_mset (\<lambda>r. f (xs ! r)) (mset [0..<length xs])" using assms by simp
  also have "\<dots> = mset (map (\<lambda>r. f (xs ! r)) [0..<length xs])" by simp
  also have "map (\<lambda>r. f (xs ! r)) [0..<length xs] = map f (map ((!) xs) [0..<length xs])"
    by simp
  also have "\<dots> = map f xs" by (simp only: map_nth)
  finally show ?thesis .
qed

lemma place_of_overlap: "boxes_overlap (place_of boxes p) (place_of boxes q) = packed_overlap p q"
proof -
  obtain pb px py pw ph prid where p: "p = (pb, px, py, pw, ph, prid)" by (cases p) auto
  obtain qb qx qy qw qh qrid where q: "q = (qb, qx, qy, qw, qh, qrid)" by (cases q) auto
  show ?thesis unfolding p q by (simp add: place_of_def packed_overlap_def boxes_overlap_iff)
qed

lemma place_of_triple:
  assumes "packed_ok (map (\<lambda>b. (width b, height b)) boxes) W H p"
  shows "triple_unrotated (place_of boxes p) = triple_unrotated (boxes ! rid_of p)"
    and "0 < width (place_of boxes p) \<and> 0 < height (place_of boxes p) \<and>
         0 \<le> xpos (place_of boxes p) \<and> xpos (place_of boxes p) + width (place_of boxes p) \<le> W \<and>
         0 \<le> ypos (place_of boxes p) \<and> ypos (place_of boxes p) + height (place_of boxes p) \<le> H"
proof -
  obtain pb px py pw ph prid where p: "p = (pb, px, py, pw, ph, prid)" by (cases p) auto
  have r: "prid < length boxes" and
    d: "(width (boxes ! prid), height (boxes ! prid)) = (pw, ph) \<or>
        (width (boxes ! prid), height (boxes ! prid)) = (ph, pw)"
    and g: "0 < pw \<and> 0 < ph \<and> 0 \<le> px \<and> 0 \<le> py \<and> px + pw \<le> W \<and> py + ph \<le> H"
    using assms unfolding p by (auto simp: packed_ok_def)
  from d show "triple_unrotated (place_of boxes p) = triple_unrotated (boxes ! rid_of p)"
    unfolding p by (auto simp: place_of_def triple_unrotated_def rid_of_def)
  from g show "0 < width (place_of boxes p) \<and> 0 < height (place_of boxes p) \<and>
         0 \<le> xpos (place_of boxes p) \<and> xpos (place_of boxes p) + width (place_of boxes p) \<le> W \<and>
         0 \<le> ypos (place_of boxes p) \<and> ypos (place_of boxes p) + height (place_of boxes p) \<le> H"
    unfolding p by (simp add: place_of_def)
qed

lemma try_pack_ok:
  assumes c: "rectpack_contract packer"
    and t: "try_pack_in_bin packer boxes W H = Inr (Some (pl, a))"
  shows "mset (map triple_unrotated pl) = mset (map triple_unrotated boxes)"
    and "sorted_wrt (\<lambda>a b. \<not> boxes_overlap a b) pl"
    and "\<forall>b\<in>set pl. 0 < width b \<and> 0 < height b \<and> 0 \<le> xpos b \<and> xpos b + width b \<le> W \<and>
           0 \<le> ypos b \<and> ypos b + height b \<le> H"
    and "used_area pl = Inr a" and "pl \<noteq> []"
proof -
  let ?rects = "map (\<lambda>b. (width b, height b)) boxes"
  from t obtain out where out: "packer ?rects W H = Inr out"
    and len: "length boxes \<le> length out"
    and bp: "build_placements boxes out = Inr pl"
    and ua: "used_area pl = Inr a"
    by (auto simp: try_pack_in_bin_def split: sum.splits if_splits)
  from c out have d: "distinct (map rid_of out)"
    and ok: "list_all (packed_ok ?rects W H) out"
    and nov: "sorted_wrt (\<lambda>p q. \<not> packed_overlap p q) out"
    unfolding rectpack_contract_def by blast+
  have pl: "pl = map (place_of boxes) out" by (rule build_placements_eq[OF bp])
  have okp: "\<And>p. p \<in> set out \<Longrightarrow> packed_ok ?rects W H p"
    using ok by (simp add: list_all_iff)
  have "\<forall>r\<in>set (map rid_of out). r < length boxes"
  proof
    fix r assume "r \<in> set (map rid_of out)"
    then obtain p where p: "p \<in> set out" "r = rid_of p" by auto
    obtain pb px py pw ph prid where pp: "p = (pb, px, py, pw, ph, prid)" by (cases p) auto
    from okp[OF p(1)] p(2) show "r < length boxes"
      unfolding pp by (simp add: packed_ok_def rid_of_def)
  qed
  from rids_perm[OF d this] len have perm: "mset (map rid_of out) = mset [0..<length boxes]"
    by simp
  have "\<And>p. p \<in> set out \<Longrightarrow>
          triple_unrotated (place_of boxes p) = triple_unrotated (boxes ! rid_of p)"
    using okp place_of_triple(1) by blast
  then have "map triple_unrotated pl = map (\<lambda>r. triple_unrotated (boxes ! r)) (map rid_of out)"
    by (simp add: pl)
  then show "mset (map triple_unrotated pl) = mset (map triple_unrotated boxes)"
    using map_nth_perm[OF perm, of triple_unrotated] by simp
  show "sorted_wrt (\<lambda>a b. \<not> boxes_overlap a b) pl"
    using nov by (simp add: pl sorted_wrt_map place_of_overlap)
  show "\<forall>b\<in>set pl. 0 < width b \<and> 0 < height b \<and> 0 \<le> xpos b \<and> xpos b + width b \<le> W \<and>
           0 \<le> ypos b \<and> ypos b + height b \<le> H"
  proof
    fix b assume "b \<in> set pl"
    then obtain p where p: "p \<in> set out" and b: "b = place_of boxes p" by (auto simp: pl)
    from place_of_triple(2)[OF okp[OF p]] b
    show "0 < width b \<and> 0 < height b \<and> 0 \<le> xpos b \<and> xpos b + width b \<le> W \<and>
           0 \<le> ypos b \<and> ypos b + height b \<le> H" by simp
  qed
  show "used_area pl = Inr a" by (rule ua)
  show "pl \<noteq> []" using ua by (auto simp: used_area_def compute_bounds_eq)
qed

lemma area_via_triples:
  "sum_list (map (\<lambda>b. width b * height b) bs)
     = sum_mset (image_mset triple_area (mset (map triple_unrotated bs)))"
proof (induction bs)
  case Nil
  then show ?case by simp
next
  case (Cons b bs)
  have "width b * height b = triple_area (triple_unrotated b)"
    by (simp add: triple_area_def triple_unrotated_def min_def max_def mult.commute)
  with Cons show ?case by simp
qed

lemma area_sum_perm:
  assumes "mset (map triple_unrotated pl) = mset (map triple_unrotated boxes)"
  shows "sum_list (map (\<lambda>b. width b * height b) pl)
           = sum_list (map (\<lambda>b. width b * height b) boxes)"
  using assms by (simp only: area_via_triples)

lemma try_pack_lower_bound:
  assumes c: "rectpack_contract packer"
    and t: "try_pack_in_bin packer boxes W H = Inr (Some (pl, a))"
    and W: "W \<le> IMAGE_WIDTH" and H: "H \<le> IMAGE_HEIGHT"
  shows "sum_list (map (\<lambda>b. width b * height b) boxes) \<le> a"
proof -
  note ok = try_pack_ok[OF c t]
  have pos: "\<forall>b\<in>set pl. 0 < width b \<and> 0 < height b" using ok(3) by blast
  have inside: "\<forall>b\<in>set pl. 0 \<le> xpos b \<and> xpos b + width b \<le> IMAGE_WIDTH \<and>
                            0 \<le> ypos b \<and> ypos b + height b \<le> IMAGE_HEIGHT"
    using ok(3) W H by fastforce
  from used_area_lower_bound[OF ok(2) pos inside ok(5)] ok(4)
  have "sum_list (map (\<lambda>b. width b * height b) pl) \<le> a" by simp
  then show ?thesis using area_sum_perm[OF ok(1)] by simp
qed

subsection \<open>The search over the candidate bins\<close>


lemma pack_loop_source:
  assumes "pack_loop packer boxes mpa best bins = Inr (Some (pl, a))"
  shows "best = Some (pl, a) \<or>
         (\<exists>(w, h)\<in>set bins. try_pack_in_bin packer boxes w h = Inr (Some (pl, a)))"
  using assms
proof (induction bins arbitrary: best)
  case Nil
  then show ?case by simp
next
  case (Cons bin bins)
  obtain w h where bin: "bin = (w, h)" by (cases bin)
  show ?case
  proof (cases "try_pack_in_bin packer boxes w h")
    case (Inl e)
    with Cons.prems bin show ?thesis by simp
  next
    case (Inr r)
    show ?thesis
    proof (cases r)
      case None
      with Cons.prems bin Inr have "pack_loop packer boxes mpa best bins = Inr (Some (pl, a))"
        by simp
      from Cons.IH[OF this] show ?thesis by auto
    next
      case (Some pa)
      obtain p1 a1 where pa: "pa = (p1, a1)" by (cases pa)
      note t = Inr[unfolded Some pa]
      let ?better = "case best of None \<Rightarrow> True | Some (p, best_area) \<Rightarrow> a1 < best_area"
      consider (stop) "?better" "a1 \<le> mpa" | (go) "?better" "\<not> a1 \<le> mpa" | (keep) "\<not> ?better"
        by blast
      then show ?thesis
      proof cases
        case stop
        with Cons.prems bin t have "(pl, a) = (p1, a1)" by simp
        with t bin show ?thesis by simp
      next
        case go
        with Cons.prems bin t have
          "pack_loop packer boxes mpa (Some (p1, a1)) bins = Inr (Some (pl, a))" by simp
        from Cons.IH[OF this] t bin show ?thesis by auto
      next
        case keep
        with Cons.prems bin t have "pack_loop packer boxes mpa best bins = Inr (Some (pl, a))"
          by simp
        from Cons.IH[OF this] show ?thesis by auto
      qed
    qed
  qed
qed


lemma set_candidate_sizes:
  "set (candidate_sizes m base limit) \<subseteq> {w. w \<le> limit}" "limit \<in> set (candidate_sizes m base limit)"
  by (auto simp: candidate_sizes_def)

lemma generate_candidate_bins_props:
  assumes "generate_candidate_bins cs boxes = Inr bins"
  shows "\<forall>(w, h)\<in>set bins. w \<le> IMAGE_WIDTH \<and> h \<le> IMAGE_HEIGHT"
    and "bins \<noteq> [] \<longrightarrow> (IMAGE_WIDTH, IMAGE_HEIGHT) \<in> set bins"
proof -
  from assms obtain mw mh base where
    bins: "bins = sort_key (\<lambda>(w, h). w * h)
       (concat (map (\<lambda>w. map (\<lambda>h. (w, h))
          (filter (\<lambda>h. w \<ge> mw \<and> h \<ge> mh) (candidate_sizes mh base IMAGE_HEIGHT)))
          (candidate_sizes mw base IMAGE_WIDTH)))"
    by (auto simp: generate_candidate_bins_def Let_def split: sum.splits)
  have s: "set bins = {(w, h). w \<in> set (candidate_sizes mw base IMAGE_WIDTH) \<and>
                       h \<in> set (candidate_sizes mh base IMAGE_HEIGHT) \<and> mw \<le> w \<and> mh \<le> h}"
    unfolding bins by auto
  show "\<forall>(w, h)\<in>set bins. w \<le> IMAGE_WIDTH \<and> h \<le> IMAGE_HEIGHT"
    unfolding s using set_candidate_sizes(1) by blast
  show "bins \<noteq> [] \<longrightarrow> (IMAGE_WIDTH, IMAGE_HEIGHT) \<in> set bins"
  proof
    assume "bins \<noteq> []"
    then obtain w h where "(w, h) \<in> set bins" by (cases bins) auto
    then have "mw \<le> w" "w \<le> IMAGE_WIDTH" "mh \<le> h" "h \<le> IMAGE_HEIGHT"
      unfolding s using set_candidate_sizes(1) by blast+
    then show "(IMAGE_WIDTH, IMAGE_HEIGHT) \<in> set bins"
      unfolding s using set_candidate_sizes(2) by simp
  qed
qed

lemma sort_by_color_perm: "sort_by_color ps = Inr out \<Longrightarrow> mset out = mset ps"
  by (auto simp: sort_by_color_def split: if_splits)

lemma pack_boxes_source:
  assumes "pack_boxes packer cs boxes = Inr out"
  shows "\<exists>W H pl a. W \<le> IMAGE_WIDTH \<and> H \<le> IMAGE_HEIGHT \<and>
           try_pack_in_bin packer boxes W H = Inr (Some (pl, a)) \<and> mset out = mset pl"
proof -
  let ?mpa = "sum_list (map (\<lambda>b. width b * height b) boxes)"
  from assms obtain bins where g: "generate_candidate_bins cs boxes = Inr bins"
    by (auto simp: pack_boxes_def Let_def split: sum.splits)
  from assms g obtain r where l: "pack_loop packer boxes ?mpa None bins = Inr r"
    by (auto simp: pack_boxes_def Let_def split: sum.splits)
  show ?thesis
  proof (cases r)
    case None
    with assms g l obtain pl a where
      t: "try_pack_in_bin packer boxes IMAGE_WIDTH IMAGE_HEIGHT = Inr (Some (pl, a))" and
      s: "sort_by_color pl = Inr out"
      by (auto simp: pack_boxes_def Let_def split: sum.splits option.splits)
    from t sort_by_color_perm[OF s] show ?thesis by blast
  next
    case (Some pa)
    obtain pl a where pa: "pa = (pl, a)" by (cases pa)
    with assms g l Some have s: "sort_by_color pl = Inr out"
      by (simp add: pack_boxes_def Let_def)
    from pack_loop_source[OF l[unfolded Some pa]] obtain w h where
      wh: "(w, h) \<in> set bins" and t: "try_pack_in_bin packer boxes w h = Inr (Some (pl, a))"
      by auto
    from generate_candidate_bins_props(1)[OF g] wh have "w \<le> IMAGE_WIDTH \<and> h \<le> IMAGE_HEIGHT"
      by auto
    with t sort_by_color_perm[OF s] show ?thesis by blast
  qed
qed


subsection \<open>The sample packer meets the contract\<close>


lemma row_pack_props:
  assumes "list_all (\<lambda>(w, h). 0 < w \<and> 0 < h) rects" and "0 \<le> cursor"
  shows "(\<forall>p\<in>set (row_pack (length pre) cursor rects W H).
            packed_ok (pre @ rects) W H p \<and> length pre \<le> rid_of p \<and>
            (case p of (b, x, y, w, h, rid) \<Rightarrow> cursor \<le> x)) \<and>
         distinct (map rid_of (row_pack (length pre) cursor rects W H)) \<and>
         sorted_wrt (\<lambda>p q. \<not> packed_overlap p q) (row_pack (length pre) cursor rects W H)"
  using assms
proof (induction rects arbitrary: pre cursor)
  case Nil
  then show ?case by simp
next
  case (Cons r rects)
  obtain w h where r: "r = (w, h)" by (cases r)
  from Cons.prems(1) r have pos: "0 < w" "0 < h" and rest: "list_all (\<lambda>(w, h). 0 < w \<and> 0 < h) rects"
    by simp_all
  have app: "(pre @ [r]) @ rects = pre @ r # rects" by simp
  have len: "length (pre @ [r]) = length pre + 1" by simp
  show ?case
  proof (cases "cursor + w \<le> W \<and> h \<le> H")
    case True
    let ?tl = "row_pack (length pre + 1) (cursor + w) rects W H"
    have c': "0 \<le> cursor + w" using Cons.prems(2) pos by simp
    from Cons.IH[OF rest c', of "pre @ [r]"]
    have ih: "\<forall>p\<in>set ?tl. packed_ok (pre @ r # rects) W H p \<and> length pre + 1 \<le> rid_of p \<and>
            (case p of (b, x, y, w', h', rid) \<Rightarrow> cursor + w \<le> x)"
      and d: "distinct (map rid_of ?tl)"
      and s: "sorted_wrt (\<lambda>p q. \<not> packed_overlap p q) ?tl"
      unfolding app len by simp_all
    let ?hd = "(0::nat, cursor, 0::int, w, h, length pre)"
    have rp: "row_pack (length pre) cursor (r # rects) W H = ?hd # ?tl"
      using True r by simp
    have hd_ok: "packed_ok (pre @ r # rects) W H ?hd"
      using True pos Cons.prems(2) r by (simp add: packed_ok_def)
    have hd_rid: "rid_of ?hd = length pre" by (simp add: rid_of_def)
    have a: "\<forall>p\<in>set (?hd # ?tl). packed_ok (pre @ r # rects) W H p \<and> length pre \<le> rid_of p \<and>
            (case p of (b, x, y, w', h', rid) \<Rightarrow> cursor \<le> x)"
    proof
      fix p assume "p \<in> set (?hd # ?tl)"
      then consider "p = ?hd" | "p \<in> set ?tl" by auto
      then show "packed_ok (pre @ r # rects) W H p \<and> length pre \<le> rid_of p \<and>
            (case p of (b, x, y, w', h', rid) \<Rightarrow> cursor \<le> x)"
      proof cases
        case 1
        with hd_ok hd_rid show ?thesis by simp
      next
        case 2
        obtain b x y w' h' rid where p: "p = (b, x, y, w', h', rid)" by (cases p) auto
        from ih 2 have "packed_ok (pre @ r # rects) W H p" "length pre + 1 \<le> rid_of p"
          "cursor + w \<le> x" unfolding p by auto
        then show ?thesis using pos unfolding p by simp
      qed
    qed
    have b: "distinct (map rid_of (?hd # ?tl))"
    proof -
      have "length pre \<notin> set (map rid_of ?tl)"
      proof
        assume "length pre \<in> set (map rid_of ?tl)"
        then obtain p where "p \<in> set ?tl" "rid_of p = length pre" by auto
        with ih show False by fastforce
      qed
      with d hd_rid show ?thesis by simp
    qed
    have c: "sorted_wrt (\<lambda>p q. \<not> packed_overlap p q) (?hd # ?tl)"
    proof -
      have "\<forall>q\<in>set ?tl. \<not> packed_overlap ?hd q"
      proof
        fix q assume q: "q \<in> set ?tl"
        obtain b x y w' h' rid where qq: "q = (b, x, y, w', h', rid)" by (cases q) auto
        from ih q have "cursor + w \<le> x" unfolding qq by auto
        then show "\<not> packed_overlap ?hd q" unfolding qq by (simp add: packed_overlap_def)
      qed
      with s show ?thesis by simp
    qed
    from a b c show ?thesis unfolding rp by blast
  next
    case False
    let ?tl = "row_pack (length pre + 1) cursor rects W H"
    from Cons.IH[OF rest Cons.prems(2), of "pre @ [r]"]
    have ih: "\<forall>p\<in>set ?tl. packed_ok (pre @ r # rects) W H p \<and> length pre + 1 \<le> rid_of p \<and>
            (case p of (b, x, y, w', h', rid) \<Rightarrow> cursor \<le> x)"
      and d: "distinct (map rid_of ?tl)"
      and s: "sorted_wrt (\<lambda>p q. \<not> packed_overlap p q) ?tl"
      unfolding app len by simp_all
    have rp: "row_pack (length pre) cursor (r # rects) W H = ?tl"
      using False r by auto
    have "\<forall>p\<in>set ?tl. packed_ok (pre @ r # rects) W H p \<and> length pre \<le> rid_of p \<and>
            (case p of (b, x, y, w', h', rid) \<Rightarrow> cursor \<le> x)"
      using ih by fastforce
    with d s show ?thesis unfolding rp by blast
  qed
qed

lemma row_packer_contract: "rectpack_contract row_packer"
  unfolding rectpack_contract_def
proof (intro allI impI)
  fix rects W H out assume "row_packer rects W H = Inr out"
  then have pos: "list_all (\<lambda>(w, h). 0 < w \<and> 0 < h) rects" and out: "out = row_pack 0 0 rects W H"
    by (auto simp: row_packer_def split: if_splits)
  from row_pack_props[OF pos, where cursor = 0 and pre = "[]" and W = W and H = H] out
  show "distinct (map rid_of out) \<and> list_all (packed_ok rects W H) out \<and>
        sorted_wrt (\<lambda>p q. \<not> packed_overlap p q) out"
    by (simp add: list_all_iff)
qed



lemma wide_bins:
  "generate_candidate_bins int_ceil_sqrt wide_sized =
    Inr [(700, 590), (700, 600), (725, 590), (725, 600), (750, 590),
      (750, 600), (775, 590), (775, 600), (800, 590), (800, 600)]"
  by code_simp



lemma wide_run:
  "pack_boxes row_packer int_ceil_sqrt wide_sized =
     Inr [mk_box ''red'' 700 590 0 0, mk_box ''blue'' 90 500 700 0]"
  by code_simp

lemma wide_area: "used_area [mk_box ''red'' 700 590 0 0, mk_box ''blue'' 90 500 700 0] = Inr 468864"
  by code_simp


lemma triple_from_attrs: "triple b = (case attrs b of (n, c, w, h) \<Rightarrow> (w, h, c))"
  by (simp add: triple_def attrs_def)

lemma triples_perm:
  fixes out boxes :: "box list"
  assumes "mset (map attrs out) = mset (map attrs boxes)"
  shows "mset (map triple out) = mset (map triple boxes)"
proof -
  let ?g = "\<lambda>t :: string \<times> rgb \<times> int \<times> int. case t of (n, c, w, h) \<Rightarrow> (w, h, c)"
  have "\<And>bs :: box list. map triple bs = map ?g (map attrs bs)"
    by (simp add: triple_from_attrs)
  then have e: "\<And>bs :: box list. mset (map triple bs) = image_mset ?g (mset (map attrs bs))"
    by (metis mset_map)
  show ?thesis unfolding e[of out] e[of boxes] assms ..
qed


text \<open>
  C2. The placer returns the multiset of (width, height, color) triples it was given.
  With a packer that meets the contract of rectpack, the optimizer returns the same
  multiset of triples up to the swap of width and height of single rectangles.
\<close>

theorem dimensions_and_colors_conserved:
  "(arrange_boxes_without_overlap rnd boxes = Inr out \<longrightarrow>
      mset (map triple out) = mset (map triple boxes)) \<and>
   (rectpack_contract packer \<and> pack_boxes packer ceil_sqrt sized_boxes = Inr packed_out \<longrightarrow>
      mset (map triple_unrotated packed_out) = mset (map triple_unrotated sized_boxes))"
proof (intro conjI impI)
  assume "arrange_boxes_without_overlap rnd boxes = Inr out"
  from arrange_result[OF this] show "mset (map triple out) = mset (map triple boxes)"
    using triples_perm by blast
next
  assume a: "rectpack_contract packer \<and> pack_boxes packer ceil_sqrt sized_boxes = Inr packed_out"
  then have c: "rectpack_contract packer" and
    p: "pack_boxes packer ceil_sqrt sized_boxes = Inr packed_out" by simp_all
  from pack_boxes_source[OF p] obtain W H pl a where
    t: "try_pack_in_bin packer sized_boxes W H = Inr (Some (pl, a))" and
    m: "mset packed_out = mset pl" by blast
  have "mset (map triple_unrotated packed_out) = image_mset triple_unrotated (mset packed_out)"
    by simp
  also have "\<dots> = mset (map triple_unrotated pl)" using m by simp
  also have "\<dots> = mset (map triple_unrotated sized_boxes)" by (rule try_pack_ok(1)[OF c t])
  finally show "mset (map triple_unrotated packed_out) = mset (map triple_unrotated sized_boxes)" .
qed


theorem dimensions_and_colors_conserved_witness:
  "arrange_boxes_without_overlap sample_draws sample_boxes =
     Inr [mk_box ''red'' 100 80 11 48, mk_box ''green'' 60 60 233 270,
          mk_box ''blue'' 150 50 159 196] \<and>
   mset (map triple [mk_box ''red'' 100 80 11 48, mk_box ''green'' 60 60 233 270,
          mk_box ''blue'' 150 50 159 196]) = mset (map triple sample_boxes) \<and>
   rectpack_contract row_packer \<and>
   pack_boxes row_packer int_ceil_sqrt wide_sized =
     Inr [mk_box ''red'' 700 590 0 0, mk_box ''blue'' 90 500 700 0] \<and>
   mset (map triple_unrotated [mk_box ''red'' 700 590 0 0, mk_box ''blue'' 90 500 700 0])
     = mset (map triple_unrotated wide_sized)"
  using dimensions_and_colors_conserved[of sample_draws sample_boxes
      "[mk_box ''red'' 100 80 11 48, mk_box ''green'' 60 60 233 270,
          mk_box ''blue'' 150 50 159 196]" row_packer int_ceil_sqrt wide_sized
      "[mk_box ''red'' 700 590 0 0, mk_box ''blue'' 90 500 700 0]"]
    sample_run wide_run row_packer_contract
  by blast


text \<open>
  C5. With a packer that meets the contract of rectpack, whenever the optimizer returns a
  placement, the area of its bounds (\<open>compute_bounds\<close>) is at least the sum of
  the areas of the input rectangles.
\<close>

theorem pack_boxes_area_lower_bound:
  assumes "rectpack_contract packer" and "pack_boxes packer cs boxes = Inr out"
  shows "\<exists>a. used_area out = Inr a \<and> sum_list (map (\<lambda>b. width b * height b) boxes) \<le> a"
proof -
  from pack_boxes_source[OF assms(2)] obtain W H pl a where
    W: "W \<le> IMAGE_WIDTH" and H: "H \<le> IMAGE_HEIGHT" and
    t: "try_pack_in_bin packer boxes W H = Inr (Some (pl, a))" and m: "mset out = mset pl"
    by blast
  have "used_area out = Inr a"
    using used_area_perm[OF m] try_pack_ok(4)[OF assms(1) t] by simp
  with try_pack_lower_bound[OF assms(1) t W H] show ?thesis by simp
qed


theorem pack_boxes_area_lower_bound_witness:
  "rectpack_contract row_packer \<and>
   pack_boxes row_packer int_ceil_sqrt wide_sized =
     Inr [mk_box ''red'' 700 590 0 0, mk_box ''blue'' 90 500 700 0] \<and>
   used_area [mk_box ''red'' 700 590 0 0, mk_box ''blue'' 90 500 700 0] = Inr 468864 \<and>
   sum_list (map (\<lambda>b. width b * height b) wide_sized) \<le> 468864"
  using pack_boxes_area_lower_bound[OF row_packer_contract wide_run]
    row_packer_contract wide_run wide_area by auto


subsection \<open>The second sample packer meets the contract\<close>









end
